theory Spec2Isabelle
  imports Main "HOL-Library.Word" "HOL-Library.Sublist"
begin

unbundle bit_operations_syntax

section \<open>dbibackend.c: a USB title server, embedded in HOL\<close>

text \<open>
  The development follows \<^verbatim>\<open>src/dbibackend.c\<close> function by function. Bytes on the wire
  and in files are \<open>8 word\<close>; the header fields are \<open>uint32_t\<close> (\<open>32 word\<close>) and the range
  offset is \<open>uint64_t\<close> (\<open>64 word\<close>). C strings (file names, paths) are \<open>string\<close>: the
  characters before the terminating NUL. Log output (\<^verbatim>\<open>LOG_INFO\<close>, \<^verbatim>\<open>LOG_DEBUG\<close>,
  \<^verbatim>\<open>LOG_ERROR\<close>, \<^verbatim>\<open>LOG_WARNING\<close>) changes neither the control flow nor the transport
  and is left out.
\<close>

subsection \<open>Constants\<close>

type_synonym byte = "8 word"
type_synonym u32 = "32 word"
type_synonym u64 = "64 word"

definition BUFFER_SEGMENT_DATA_SIZE :: nat where
  "BUFFER_SEGMENT_DATA_SIZE = 0x100000"

definition MAX_PATH_LEN :: nat where
  "MAX_PATH_LEN = 4096"

definition MAX_TITLES :: nat where
  "MAX_TITLES = 1024"

definition CMD_EXIT :: u32 where "CMD_EXIT = 0"
definition CMD_FILE_RANGE :: u32 where "CMD_FILE_RANGE = 2"
definition CMD_LIST :: u32 where "CMD_LIST = 3"

definition CMD_TYPE_REQUEST :: u32 where "CMD_TYPE_REQUEST = 0"
definition CMD_TYPE_RESPONSE :: u32 where "CMD_TYPE_RESPONSE = 1"
definition CMD_TYPE_ACK :: u32 where "CMD_TYPE_ACK = 2"

subsection \<open>Integers in byte buffers\<close>

text \<open>
  \<^verbatim>\<open>*(uint32_t*)(buf + off) = v\<close> and \<^verbatim>\<open>v = *(uint32_t*)(buf + off)\<close> store and load in the
  host's byte order. The hosts the program is built for (x86-64, AArch64) are
  little-endian, which is also the layout the specification names, so the least
  significant byte comes first. \<open>load_u32\<close> and \<open>load_u64\<close> are only applied where the
  caller has established that the bytes exist.
\<close>

definition store_u32 :: "u32 \<Rightarrow> byte list" where
  "store_u32 v = [ucast v, ucast (drop_bit 8 v), ucast (drop_bit 16 v), ucast (drop_bit 24 v)]"

definition load_u32 :: "byte list \<Rightarrow> nat \<Rightarrow> u32" where
  "load_u32 buf off =
     ucast (buf ! off) OR push_bit 8 (ucast (buf ! (off + 1)))
       OR push_bit 16 (ucast (buf ! (off + 2))) OR push_bit 24 (ucast (buf ! (off + 3)))"

definition load_u64 :: "byte list \<Rightarrow> nat \<Rightarrow> u64" where
  "load_u64 buf off =
     ucast (load_u32 buf off) OR push_bit 32 (ucast (load_u32 buf (off + 4)))"

subsection \<open>The 16-byte command header\<close>

text \<open>
  Every header the program sends is built by the same four statements
  (\<^verbatim>\<open>memcpy(response, "DBI0", 4)\<close> and three \<^verbatim>\<open>uint32_t\<close> stores at offsets 4, 8 and 12),
  in \<^verbatim>\<open>process_exit_command\<close>, \<^verbatim>\<open>process_list_command\<close> and
  \<^verbatim>\<open>process_file_range_command\<close>; \<open>encode_header\<close> is that sequence. Every header
  it receives is read by a \<^verbatim>\<open>memcmp\<close> of the first four bytes and three loads at the
  same offsets (\<^verbatim>\<open>poll_commands\<close>); \<open>decode_header\<close> returns the four fields read.
\<close>

definition magic :: "byte list" where
  "magic = map of_char ''DBI0''"

definition encode_header :: "u32 \<Rightarrow> u32 \<Rightarrow> u32 \<Rightarrow> byte list" where
  "encode_header cmd_type cmd_id data_size =
     magic @ store_u32 cmd_type @ store_u32 cmd_id @ store_u32 data_size"

definition decode_header :: "byte list \<Rightarrow> byte list \<times> u32 \<times> u32 \<times> u32" where
  "decode_header buf = (take 4 buf, load_u32 buf 4, load_u32 buf 8, load_u32 buf 12)"

subsection \<open>The title cache\<close>

text \<open>
  \<^verbatim>\<open>TitleCache\<close> is a fixed array of \<open>MAX_TITLES\<close> entries and a count; the slots at and
  after \<open>count\<close> hold stale or zeroed data. \<^verbatim>\<open>TitleCache cache = {0}\<close> zeroes all of it.
  The list \<open>entries\<close> is that array: it starts with \<open>MAX_TITLES\<close> elements and no
  operation of the program changes its length.
\<close>

record title_entry =
  display_name :: string
  full_path :: string

record title_cache =
  entries :: "title_entry list"
  count :: nat

definition empty_cache :: title_cache where
  "empty_cache =
     \<lparr>entries = replicate MAX_TITLES \<lparr>display_name = [], full_path = []\<rparr>, count = 0\<rparr>"

text \<open>
  \<^verbatim>\<open>find_title_path\<close>: the \<^verbatim>\<open>for\<close> loop over \<open>i < count\<close>, started at \<open>i = 0\<close>. In C the
  result is a pointer to the stored path or the argument itself; the model returns the
  string pointed to.
\<close>

function find_title_path_from :: "title_cache \<Rightarrow> string \<Rightarrow> nat \<Rightarrow> string" where
  "find_title_path_from cache name i =
     (if i < count cache then
        (if display_name (entries cache ! i) = name then full_path (entries cache ! i)
         else find_title_path_from cache name (i + 1))
      else name)"
  by pat_completeness auto
termination
  by (relation "measure (\<lambda>(cache, name, i). count cache - i)") auto

declare find_title_path_from.simps [simp del]

definition find_title_path :: "title_cache \<Rightarrow> string \<Rightarrow> string" where
  "find_title_path cache name = find_title_path_from cache name 0"

text \<open>The catalog: the slots below \<open>count\<close>, in order.\<close>

definition catalog :: "title_cache \<Rightarrow> title_entry list" where
  "catalog c = map (\<lambda>i. entries c ! i) [0..<count c]"

subsection \<open>Undefined behaviour\<close>

text \<open>
  Three places of the program can leave the behaviour the C standard or the model
  defines. They are results of the model, not assumptions:
  \<^item> \<open>Path_Truncated\<close>: \<^verbatim>\<open>snprintf\<close> cut a joined path to fit \<^verbatim>\<open>full_path[MAX_PATH_LEN]\<close>;
    what \<^verbatim>\<open>stat\<close> then finds under the cut name is not given by the directory tree;
  \<^item> \<open>Heap_Overflow\<close>: \<^verbatim>\<open>strcat\<close> wrote past the end of the \<^verbatim>\<open>malloc\<close>ed list buffer;
  \<^item> \<open>Invalid_Read\<close>: a byte of the \<^verbatim>\<open>malloc\<close>ed request buffer was read that the
    transfer did not deliver (uninitialised, or past the end of the buffer).
\<close>

datatype fault = Path_Truncated | Heap_Overflow | Invalid_Read

subsection \<open>File names\<close>

text \<open>
  \<^verbatim>\<open>strcasecmp\<close> in the C locale (the program never calls \<^verbatim>\<open>setlocale\<close>): the bytes
  \<open>A\<close>..\<open>Z\<close> compare as \<open>a\<close>..\<open>z\<close>. Only equality with 0 is ever tested, so the
  model returns 0 for equal strings and 1 otherwise.
\<close>

definition tolower :: "char \<Rightarrow> char" where
  "tolower c =
     (let n = of_char c :: nat in if 65 \<le> n \<and> n \<le> 90 then char_of (n + 32) else c)"

definition strcasecmp :: "string \<Rightarrow> string \<Rightarrow> int" where
  "strcasecmp a b = (if map tolower a = map tolower b then 0 else 1)"

definition has_valid_extension :: "string \<Rightarrow> bool" where
  "has_valid_extension filename =
     (let len = length filename in
      if len < 4 then False
      else
        (let ext = drop (len - 4) filename in
         strcasecmp ext ''.nsp'' = 0 \<or> strcasecmp ext ''.xci'' = 0
           \<or> strcasecmp ext ''.nsz'' = 0))"

subsection \<open>The titles directory\<close>

text \<open>
  The directory tree as \<^verbatim>\<open>opendir\<close>, \<^verbatim>\<open>readdir\<close> and \<^verbatim>\<open>stat\<close> report it. A \<open>Directory\<close>
  lists its entries in \<^verbatim>\<open>readdir\<close> order, each with the node \<^verbatim>\<open>stat\<close> finds under its
  name (\<^verbatim>\<open>stat\<close> follows symbolic links). \<open>Unreadable_Directory\<close> is a directory that
  \<^verbatim>\<open>opendir\<close> cannot open, \<open>Special\<close> a node that is neither a directory nor a regular
  file, \<open>No_Stat\<close> an entry on which \<^verbatim>\<open>stat\<close> fails.
\<close>

datatype node =
    Regular
  | Directory "(string \<times> node) list"
  | Unreadable_Directory
  | Special
  | No_Stat

datatype stat_result = Stat_Fails | S_IFDIR | S_IFREG | S_IFOTHER

fun stat :: "node \<Rightarrow> stat_result" where
  "stat Regular = S_IFREG"
| "stat (Directory es) = S_IFDIR"
| "stat Unreadable_Directory = S_IFDIR"
| "stat Special = S_IFOTHER"
| "stat No_Stat = Stat_Fails"

text \<open>The file-system calls of a scan, in order, with the path each was given.\<close>

datatype fs_call = Opendir string | Stat string

record scan_state =
  titles :: title_cache
  fs_calls :: "fs_call list"

text \<open>
  \<^verbatim>\<open>strncpy(dst, src, n)\<close> into a slot whose byte \<open>n\<close> is still the zero of
  \<^verbatim>\<open>TitleCache cache = {0}\<close>: the slot then holds the first \<open>n\<close> characters of \<open>src\<close>.
\<close>

definition add_title :: "string \<Rightarrow> string \<Rightarrow> title_cache \<Rightarrow> title_cache" where
  "add_title d_name path c =
     c\<lparr>entries := (entries c)[count c :=
          \<lparr>display_name = take 255 d_name, full_path = take (MAX_PATH_LEN - 1) path\<rparr>],
        count := count c + 1\<rparr>"

text \<open>
  \<^verbatim>\<open>snprintf(full_path, sizeof(full_path), "%s/%s", path, entry->d_name)\<close> keeps at most
  \<open>MAX_PATH_LEN - 1\<close> characters of the joined path.
\<close>

definition snprintf_path :: "string \<Rightarrow> string \<Rightarrow> string" where
  "snprintf_path path d_name = take (MAX_PATH_LEN - 1) (path @ ''/'' @ d_name)"

text \<open>
  \<^verbatim>\<open>scan_directory\<close>. \<open>scan_directory path n s\<close> is the call on a path that names the
  node \<open>n\<close>; \<open>scan_entries path es s\<close> is its \<^verbatim>\<open>while\<close> loop with \<open>es\<close> the entries
  \<^verbatim>\<open>readdir\<close> has not returned yet. The loop condition calls \<^verbatim>\<open>readdir\<close> first and
  tests \<open>count < MAX_TITLES\<close> second. The node of an entry is what \<^verbatim>\<open>stat\<close> finds under
  the joined path; when \<^verbatim>\<open>snprintf\<close> has cut the path, the tree does not say what
  \<^verbatim>\<open>stat\<close> finds and the scan ends in \<open>Path_Truncated\<close>.
\<close>

fun scan_directory :: "string \<Rightarrow> node \<Rightarrow> scan_state \<Rightarrow> fault + scan_state"
  and scan_entries :: "string \<Rightarrow> (string \<times> node) list \<Rightarrow> scan_state \<Rightarrow> fault + scan_state"
where
  "scan_directory path (Directory es) s =
     scan_entries path es (s\<lparr>fs_calls := fs_calls s @ [Opendir path]\<rparr>)"
| "scan_directory path n s = Inr (s\<lparr>fs_calls := fs_calls s @ [Opendir path]\<rparr>)"
| "scan_entries path [] s = Inr s"
| "scan_entries path ((d_name, n) # es) s =
     (if \<not> count (titles s) < MAX_TITLES then Inr s
      else if d_name = ''.'' \<or> d_name = ''..'' then scan_entries path es s
      else
        (let full = snprintf_path path d_name in
         if full \<noteq> path @ ''/'' @ d_name then Inl Path_Truncated
         else
           (let s1 = s\<lparr>fs_calls := fs_calls s @ [Stat full]\<rparr>
            in case stat n of
                 Stat_Fails \<Rightarrow> scan_entries path es s1
               | S_IFDIR \<Rightarrow>
                   (case scan_directory full n s1 of
                      Inl f \<Rightarrow> Inl f
                    | Inr s2 \<Rightarrow> scan_entries path es s2)
               | S_IFREG \<Rightarrow>
                   (if has_valid_extension d_name
                    then scan_entries path es (s1\<lparr>titles := add_title d_name full (titles s1)\<rparr>)
                    else scan_entries path es s1)
               | S_IFOTHER \<Rightarrow> scan_entries path es s1)))"

text \<open>
  The first two statements of \<^verbatim>\<open>process_list_command\<close>:
  \<^verbatim>\<open>cache->count = 0; scan_directory(work_dir, cache);\<close>
\<close>

definition rescan :: "string \<Rightarrow> node \<Rightarrow> title_cache \<Rightarrow> fault + scan_state" where
  "rescan work_dir root c =
     scan_directory work_dir root \<lparr>titles = c\<lparr>count := 0\<rparr>, fs_calls = []\<rparr>"

subsection \<open>What the specification counts\<close>

text \<open>
  The specification's words, for comparison with the scan: a name \<^emph>\<open>ends
  case-insensitively in\<close> an extension, and the regular files \<^emph>\<open>transitively under\<close>
  a directory whose name does. The entries \<open>.\<close> and \<open>..\<close> of a directory are links to
  itself and to its parent, not files under it.
\<close>

definition ends_with_ci :: "string \<Rightarrow> string \<Rightarrow> bool" where
  "ends_with_ci name ext = suffix (map tolower ext) (map tolower name)"

definition is_title_name :: "string \<Rightarrow> bool" where
  "is_title_name name =
     (ends_with_ci name ''.nsp'' \<or> ends_with_ci name ''.xci'' \<or> ends_with_ci name ''.nsz'')"

fun matching_files :: "node \<Rightarrow> nat"
  and matching_entries :: "(string \<times> node) list \<Rightarrow> nat"
where
  "matching_files (Directory es) = matching_entries es"
| "matching_files n = 0"
| "matching_entries [] = 0"
| "matching_entries ((name, n) # es) =
     (if name = ''.'' \<or> name = ''..'' then 0
      else if n = Regular then (if is_title_name name then 1 else 0)
      else matching_files n)
     + matching_entries es"

text \<open>Every joined path of the tree fits \<^verbatim>\<open>full_path[MAX_PATH_LEN]\<close> with its NUL.\<close>

fun paths_fit :: "string \<Rightarrow> node \<Rightarrow> bool"
  and entries_fit :: "string \<Rightarrow> (string \<times> node) list \<Rightarrow> bool"
where
  "paths_fit path (Directory es) = entries_fit path es"
| "paths_fit path n = True"
| "entries_fit path [] = True"
| "entries_fit path ((name, n) # es) =
     ((name = ''.'' \<or> name = ''..'' \<or>
        (length (path @ ''/'' @ name) < MAX_PATH_LEN \<and> paths_fit (path @ ''/'' @ name) n))
      \<and> entries_fit path es)"

subsection \<open>The environment: transport, files, allocator\<close>

text \<open>
  One \<^verbatim>\<open>libusb_bulk_transfer\<close> on the IN endpoint: its return code (negative on error)
  and the bytes it delivered.
\<close>

record usb_transfer =
  status :: int
  received :: "byte list"

text \<open>
  The world the session runs in. \<open>usb_in k\<close> is the outcome of the \<open>k\<close>-th IN transfer
  and \<open>usb_reads\<close> counts the transfers made so far; \<open>usb_out\<close> lists the buffers handed
  to the OUT endpoint, oldest first. \<open>titles_root\<close> is the tree at the titles directory,
  \<open>fopen_rb path\<close> the bytes of the file \<^verbatim>\<open>fopen(path, "rb")\<close> opens (\<open>None\<close>: the open
  fails), \<open>malloc_null n\<close> whether \<^verbatim>\<open>malloc(n)\<close> returns \<^verbatim>\<open>NULL\<close>.
\<close>

record world =
  usb_in :: "nat \<Rightarrow> usb_transfer"
  usb_reads :: nat
  usb_out :: "byte list list"
  titles_root :: node
  fopen_rb :: "string \<Rightarrow> byte list option"
  malloc_null :: "nat \<Rightarrow> bool"

text \<open>
  \<^verbatim>\<open>usb_read\<close> returns the error code, or the number of bytes transferred. The model
  returns with it the bytes now at the start of the caller's buffer: at most \<open>sz\<close>
  (the \<^verbatim>\<open>int size\<close> of the C function) of them.
\<close>

definition usb_read :: "world \<Rightarrow> int \<Rightarrow> int \<times> byte list \<times> world" where
  "usb_read w sz =
     (let t = usb_in w (usb_reads w);
          got = take (nat sz) (received t);
          w' = w\<lparr>usb_reads := usb_reads w + 1\<rparr>
      in if status t < 0 then (status t, got, w') else (int (length got), got, w'))"

text \<open>
  \<^verbatim>\<open>usb_write\<close> hands \<open>sz\<close> bytes of the buffer to the OUT endpoint. No caller looks
  at what it returns, so a failed write changes nothing in what the program does next.
\<close>

definition usb_write :: "world \<Rightarrow> byte list \<Rightarrow> int \<Rightarrow> world" where
  "usb_write w buf sz = w\<lparr>usb_out := usb_out w @ [take (nat sz) buf]\<rparr>"

subsection \<open>The Exit handler\<close>

definition process_exit_command :: "world \<Rightarrow> world" where
  "process_exit_command w = usb_write w (encode_header CMD_TYPE_RESPONSE CMD_EXIT 0) 16"

subsection \<open>The List handler\<close>

text \<open>
  The \<^verbatim>\<open>strcat\<close> loop of \<^verbatim>\<open>process_list_command\<close> over a buffer of
  \<open>MAX_TITLES * 256\<close> bytes. A \<^verbatim>\<open>strcat\<close> whose result, with its NUL, does not fit the
  buffer writes past its end.
\<close>

function strcat_titles :: "title_cache \<Rightarrow> nat \<Rightarrow> string \<Rightarrow> fault + string" where
  "strcat_titles cache i nsp_list =
     (if i < count cache then
        (let l1 = nsp_list @ display_name (entries cache ! i) in
         if MAX_TITLES * 256 < length l1 + 1 then Inl Heap_Overflow
         else
           (let l2 = l1 @ [CHR 0x0A] in
            if MAX_TITLES * 256 < length l2 + 1 then Inl Heap_Overflow
            else strcat_titles cache (i + 1) l2))
      else Inr nsp_list)"
  by pat_completeness auto
termination
  by (relation "measure (\<lambda>(cache, i, nsp_list). count cache - i)") auto

declare strcat_titles.simps [simp del]

definition process_list_command ::
  "string \<Rightarrow> title_cache \<Rightarrow> world \<Rightarrow> fault + title_cache \<times> world" where
  "process_list_command work_dir cache w =
     (case rescan work_dir (titles_root w) cache of
        Inl f \<Rightarrow> Inl f
      | Inr s \<Rightarrow>
          (let cache' = titles s in
           if malloc_null w (MAX_TITLES * 256) then Inr (cache', w)
           else
             (case strcat_titles cache' 0 [] of
                Inl f \<Rightarrow> Inl f
              | Inr nsp_list \<Rightarrow>
                  (let list_len = (of_nat (length nsp_list) :: u32);
                       w1 = usb_write w (encode_header CMD_TYPE_RESPONSE CMD_LIST list_len) 16;
                       (ret, ack, w2) = usb_read w1 16;
                       w3 = usb_write w2 (map of_char nsp_list) (sint list_len)
                   in Inr (cache', w3)))))"

subsection \<open>The FileRange handler\<close>

text \<open>
  The request payload as parsed from the bytes the transfer delivered into the
  \<^verbatim>\<open>malloc\<close>ed buffer. The three integers need the first 16 bytes. The name is what
  \<^verbatim>\<open>strncpy(nsp_name, buf + 16, MAX_PATH_LEN - 1)\<close> copies: it reads up to the first NUL
  or \<open>MAX_PATH_LEN - 1\<close> bytes, whichever comes first, so both must lie within the
  delivered bytes.
\<close>

record file_range_request =
  range_size :: u32
  range_offset :: u64
  nsp_name_len :: u32
  nsp_name :: string

definition parse_file_range :: "byte list \<Rightarrow> fault + file_range_request" where
  "parse_file_range buf =
     (if length buf < 16 then Inl Invalid_Read
      else
        (let src = drop 16 buf;
             name = takeWhile (\<lambda>b. b \<noteq> 0) (take (MAX_PATH_LEN - 1) src)
         in if length name = length src \<and> length src < MAX_PATH_LEN - 1 then Inl Invalid_Read
            else Inr \<lparr>range_size = load_u32 buf 0, range_offset = load_u64 buf 4,
                      nsp_name_len = load_u32 buf 12, nsp_name = map (\<lambda>b. char_of (unat b)) name\<rparr>))"

text \<open>
  \<^verbatim>\<open>fseek(f, range_offset, SEEK_SET)\<close> takes a \<^verbatim>\<open>long\<close>: an offset with the top bit set
  is negative, the call fails and the position stays at 0. The result is not checked.
\<close>

definition fseek_set :: "u64 \<Rightarrow> nat" where
  "fseek_set off = (if sint off < 0 then 0 else unat off)"

text \<open>
  The streaming loop. \<open>content\<close> and \<open>pos\<close> are the open file and its position;
  \<open>curr_off\<close>, \<open>end_off\<close> (\<^verbatim>\<open>uint64_t\<close>) and \<open>read_size\<close> (\<^verbatim>\<open>uint32_t\<close>) are the loop's
  variables. They are natural numbers here: \<open>end_off\<close> is a \<^verbatim>\<open>uint32_t\<close> value and
  \<open>curr_off\<close> never passes it, so no sum wraps and the clipped \<open>read_size\<close> fits 32
  bits. \<^verbatim>\<open>fread\<close> returns the bytes left in the file when fewer than \<open>read_size\<close>
  remain. The loop as written need not end for every value of its variables (it spins
  when \<open>read_size\<close> is 0), so a missing result is \<open>None\<close>.
\<close>

partial_function (option) stream_range ::
  "byte list \<Rightarrow> nat \<Rightarrow> nat \<Rightarrow> nat \<Rightarrow> nat \<Rightarrow> world \<Rightarrow> world option" where
  "stream_range content pos curr_off end_off read_size w =
     (if curr_off < end_off then
        (let read_size' = (if end_off \<le> curr_off + read_size then end_off - curr_off
                           else read_size);
             buffer = take read_size' (drop pos content)
         in if length buffer \<noteq> read_size' then Some w
            else stream_range content (pos + read_size') (curr_off + read_size') end_off
                   read_size' (usb_write w buffer (int read_size')))
      else Some w)"

definition process_file_range_command ::
  "u32 \<Rightarrow> title_cache \<Rightarrow> world \<Rightarrow> (fault + world) option" where
  "process_file_range_command data_size cache w =
     (let w1 = usb_write w (encode_header CMD_TYPE_ACK CMD_FILE_RANGE data_size) 16 in
      if malloc_null w1 (unat data_size) then Some (Inr w1)
      else
        (let (ret, file_range_header, w2) = usb_read w1 (sint data_size) in
         case parse_file_range file_range_header of
           Inl f \<Rightarrow> Some (Inl f)
         | Inr req \<Rightarrow>
             (let actual_path = find_title_path cache (nsp_name req);
                  w3 = usb_write w2
                         (encode_header CMD_TYPE_RESPONSE CMD_FILE_RANGE (range_size req)) 16;
                  (ret', ack, w4) = usb_read w3 16
              in case fopen_rb w4 actual_path of
                   None \<Rightarrow> Some (Inr w4)
                 | Some content \<Rightarrow>
                     (if malloc_null w4 BUFFER_SEGMENT_DATA_SIZE then Some (Inr w4)
                      else
                        map_option Inr
                          (stream_range content (fseek_set (range_offset req)) 0
                             (unat (range_size req)) BUFFER_SEGMENT_DATA_SIZE w4)))))"

subsection \<open>The session loop\<close>

text \<open>
  One pass through the body of \<^verbatim>\<open>while (true)\<close> in \<^verbatim>\<open>poll_commands\<close>: \<open>Continue\<close> is
  reaching the loop head again (by \<^verbatim>\<open>continue\<close> or \<^verbatim>\<open>break\<close> out of the \<^verbatim>\<open>switch\<close>),
  \<open>Return\<close> is \<^verbatim>\<open>return\<close>. The loop's state is the cache and the world.
\<close>

datatype step = Continue title_cache world | Return world | Undefined fault

definition poll_iteration :: "string \<Rightarrow> title_cache \<Rightarrow> world \<Rightarrow> step option" where
  "poll_iteration work_dir cache w =
     (let (ret, cmd_header, w1) = usb_read w 16 in
      if ret < 16 then Some (Continue cache w1)
      else if take 4 cmd_header \<noteq> magic then Some (Continue cache w1)
      else
        (let cmd_type = load_u32 cmd_header 4;
             cmd_id = load_u32 cmd_header 8;
             data_size = load_u32 cmd_header 12
         in if cmd_id = CMD_EXIT then Some (Return (process_exit_command w1))
            else if cmd_id = CMD_LIST then
              (case process_list_command work_dir cache w1 of
                 Inl f \<Rightarrow> Some (Undefined f)
               | Inr (cache', w2) \<Rightarrow> Some (Continue cache' w2))
            else if cmd_id = CMD_FILE_RANGE then
              (case process_file_range_command data_size cache w1 of
                 None \<Rightarrow> None
               | Some (Inl f) \<Rightarrow> Some (Undefined f)
               | Some (Inr w2) \<Rightarrow> Some (Continue cache w2))
            else Some (Return (process_exit_command w1))))"

text \<open>
  The loop itself. It has no bound on its iterations: \<open>None\<close> is a run that never
  returns, \<open>Some (Inr w)\<close> a return in the world \<open>w\<close>.
\<close>

partial_function (option) poll_loop ::
  "string \<Rightarrow> title_cache \<Rightarrow> world \<Rightarrow> (fault + world) option" where
  "poll_loop work_dir cache w =
     (case poll_iteration work_dir cache w of
        None \<Rightarrow> None
      | Some (Continue cache' w') \<Rightarrow> poll_loop work_dir cache' w'
      | Some (Return w') \<Rightarrow> Some (Inr w')
      | Some (Undefined f) \<Rightarrow> Some (Inl f))"


subsection \<open>Notions the statements use\<close>


text \<open>
  The list the specification describes: each display name of the catalog followed by a
  newline, in catalog order.
\<close>

definition list_text :: "title_cache \<Rightarrow> string" where
  "list_text c = concat (map (\<lambda>e. display_name e @ [CHR 0x0A]) (catalog c))"

text \<open>
  The world a FileRange handler leaves once both headers are written and the
  acknowledgement is read, before any chunk.
\<close>

definition after_request :: "u32 \<Rightarrow> file_range_request \<Rightarrow> world \<Rightarrow> world" where
  "after_request data_size req w =
     w\<lparr>usb_out := usb_out w @
         [encode_header CMD_TYPE_ACK CMD_FILE_RANGE data_size,
          encode_header CMD_TYPE_RESPONSE CMD_FILE_RANGE (range_size req)],
       usb_reads := usb_reads w + 2\<rparr>"

text \<open>
  What one pass of the scan loop does to the scan state for a regular file with a
  recognised extension.
\<close>

definition record_title :: "string \<Rightarrow> scan_state \<Rightarrow> string \<Rightarrow> scan_state" where
  "record_title path s d =
     s\<lparr>fs_calls := fs_calls s @ [Stat (path @ ''/'' @ d)],
       titles := add_title d (path @ ''/'' @ d) (titles s)\<rparr>"


subsection \<open>Example environments\<close>

text \<open>
  Concrete inputs on which the theorems below are instantiated. \<open>script ts\<close> is a peer
  that completes the transfers \<open>ts\<close> and is then gone (\<^verbatim>\<open>LIBUSB_ERROR_NO_DEVICE\<close> is -4);
  \<open>host ts\<close> is a host with a small titles directory at \<open>/t\<close>, a ten-byte file and an
  allocator that never fails; \<open>two_titles\<close> is the cache a scan of that directory leaves.
\<close>

definition delivered :: "byte list \<Rightarrow> usb_transfer" where
  "delivered bs = \<lparr>status = 0, received = bs\<rparr>"


definition script :: "usb_transfer list \<Rightarrow> nat \<Rightarrow> usb_transfer" where
  "script ts k = (if k < length ts then ts ! k else \<lparr>status = - 4, received = []\<rparr>)"

definition small_tree :: node where
  "small_tree =
     Directory [(''a.nsp'', Regular),
                (''sub'', Directory [(''b.XCI'', Regular), (''notes.txt'', Regular)])]"

definition host :: "usb_transfer list \<Rightarrow> world" where
  "host ts =
     \<lparr>usb_in = script ts, usb_reads = 0, usb_out = [], titles_root = small_tree,
      fopen_rb = (\<lambda>p. if p = ''/t/a.nsp'' then Some [10, 11, 12, 13, 14, 15, 16, 17, 18, 19]
                       else None),
      malloc_null = (\<lambda>n. False)\<rparr>"

definition two_titles :: title_cache where
  "two_titles =
     add_title ''b.XCI'' ''/t/sub/b.XCI'' (add_title ''a.nsp'' ''/t/a.nsp'' empty_cache)"

text \<open>
  Headers a peer may send: a List request under a wrong tag, a request with the
  deprecated command id 1, an Exit request.
\<close>

definition bad_magic :: "byte list" where
  "bad_magic =
     map of_char ''XBI0'' @ store_u32 CMD_TYPE_REQUEST @ store_u32 CMD_LIST @ store_u32 0"



text \<open>
  A FileRange request payload that carries a NUL after the name (the three integers, the
  name, the NUL), and sessions in which a peer asks for a range of a file by name with
  it: handed to the handler directly, or announced by a FileRange header first.
\<close>

definition file_range_payload :: "u32 \<Rightarrow> u64 \<Rightarrow> u32 \<Rightarrow> string \<Rightarrow> byte list" where
  "file_range_payload sz off len name =
     store_u32 sz @ store_u32 (ucast off) @ store_u32 (ucast (drop_bit 32 off)) @ store_u32 len
       @ map of_char name @ [0]"

definition range_session :: "u32 \<Rightarrow> u64 \<Rightarrow> string \<Rightarrow> world" where
  "range_session sz off name =
     host [delivered (file_range_payload sz off (of_nat (length name)) name),
           delivered (encode_header CMD_TYPE_ACK CMD_FILE_RANGE sz)]"

definition range_request :: "string \<Rightarrow> byte list" where
  "range_request name = encode_header CMD_TYPE_REQUEST CMD_FILE_RANGE (of_nat (17 + length name))"

definition polled_range_session :: "u32 \<Rightarrow> u64 \<Rightarrow> string \<Rightarrow> world" where
  "polled_range_session sz off name =
     host [delivered (range_request name),
           delivered (file_range_payload sz off (of_nat (length name)) name),
           delivered (encode_header CMD_TYPE_ACK CMD_FILE_RANGE sz)]"

text \<open>
  The same request as the wire format lays it out: the three integers, with the length
  of the name in the third, then the bytes of the name and nothing after them. The header
  that announces it declares \<open>16 + length name\<close> bytes.
\<close>

definition file_range_request_bytes :: "u32 \<Rightarrow> u64 \<Rightarrow> string \<Rightarrow> byte list" where
  "file_range_request_bytes sz off name =
     store_u32 sz @ store_u32 (ucast off) @ store_u32 (ucast (drop_bit 32 off))
       @ store_u32 (of_nat (length name)) @ map of_char name"

definition wire_range_session :: "u32 \<Rightarrow> u64 \<Rightarrow> string \<Rightarrow> world" where
  "wire_range_session sz off name =
     host [delivered (file_range_request_bytes sz off name),
           delivered (encode_header CMD_TYPE_ACK CMD_FILE_RANGE sz)]"

definition wire_range_request :: "string \<Rightarrow> byte list" where
  "wire_range_request name =
     encode_header CMD_TYPE_REQUEST CMD_FILE_RANGE (of_nat (16 + length name))"

definition polled_wire_range_session :: "u32 \<Rightarrow> u64 \<Rightarrow> string \<Rightarrow> world" where
  "polled_wire_range_session sz off name =
     host [delivered (wire_range_request name),
           delivered (file_range_request_bytes sz off name),
           delivered (encode_header CMD_TYPE_ACK CMD_FILE_RANGE sz)]"

text \<open>
  A directory of title files: \<open>numbered k\<close> for \<open>k < 1024\<close> are 1024 different names of
  255 characters, the longest a directory entry can have, each ending in \<open>.nsp\<close>.
  \<open>crowded_tree\<close> holds those 1024 files and then a subdirectory with one more;
  \<open>full_tree\<close> holds exactly the 1024.
\<close>

definition numbered :: "nat \<Rightarrow> string" where
  "numbered k =
     replicate (k div 32) CHR ''a'' @ replicate (k mod 32) CHR ''b''
       @ replicate (251 - k div 32 - k mod 32) CHR ''c'' @ ''.nsp''"

definition title_files :: "nat \<Rightarrow> (string \<times> node) list" where
  "title_files n = map (\<lambda>k. (numbered k, Regular)) [0..<n]"

definition crowded_tree :: node where
  "crowded_tree = Directory (title_files 1024 @ [(''more'', Directory [(''z.nsp'', Regular)])])"

definition full_tree :: node where
  "full_tree = Directory (title_files 1024)"

text \<open>
  The scan state after \<^verbatim>\<open>opendir\<close> on \<open>/t\<close> and one pass of the loop for each of the 1024
  numbered files.
\<close>

definition crowded_scan :: scan_state where
  "crowded_scan =
     foldl (record_title ''/t'')
       \<lparr>titles = empty_cache\<lparr>count := 0\<rparr>, fs_calls = [Opendir ''/t'']\<rparr>
       (map numbered [0..<1024])"

section \<open>Properties\<close>

subsection \<open>Header codec\<close>

lemma load_store_u32: "load_u32 (pre @ store_u32 v @ post) (length pre) = v"
  unfolding load_u32_def store_u32_def
  apply (simp add: nth_append)
  apply (rule bit_word_eqI)
  apply (auto simp add: bit_simps)
  subgoal for n by (cases "24 \<le> n") auto
  done

lemma length_store_u32 [simp]: "length (store_u32 v) = 4"
  by (simp add: store_u32_def)

lemma length_magic [simp]: "length magic = 4"
  by (simp add: magic_def)

lemma length_encode_header [simp]: "length (encode_header t i n) = 16"
  by (simp add: encode_header_def)

lemma load_u32_encode_header:
  "load_u32 (encode_header t i n) 4 = t"
  "load_u32 (encode_header t i n) 8 = i"
  "load_u32 (encode_header t i n) 12 = n"
proof -
  show "load_u32 (encode_header t i n) 4 = t"
    using load_store_u32 [of magic t "store_u32 i @ store_u32 n"]
    by (simp add: encode_header_def)
  show "load_u32 (encode_header t i n) 8 = i"
    using load_store_u32 [of "magic @ store_u32 t" i "store_u32 n"]
    by (simp add: encode_header_def)
  show "load_u32 (encode_header t i n) 12 = n"
    using load_store_u32 [of "magic @ store_u32 t @ store_u32 i" n "[]"]
    by (simp add: encode_header_def)
qed

lemma take_4_encode_header [simp]: "take 4 (encode_header t i n) = magic"
  by (simp add: encode_header_def)

text \<open>
  Claim C5. Encoding any three 32-bit field values gives 16 bytes, and decoding those
  bytes gives back the magic tag \<open>DBI0\<close> and the three values.
\<close>

theorem header_round_trip:
  "length (encode_header cmd_type cmd_id data_size) = 16 \<and>
   decode_header (encode_header cmd_type cmd_id data_size)
     = (map of_char ''DBI0'', cmd_type, cmd_id, data_size)"
  by (simp add: decode_header_def load_u32_encode_header) (simp add: magic_def)

subsection \<open>Resolution\<close>

lemma find_title_path_from_eq:
  "i \<le> count c \<Longrightarrow>
   find_title_path_from c name i =
     (case find (\<lambda>e. display_name e = name) (map (\<lambda>i. entries c ! i) [i..<count c]) of
        Some e \<Rightarrow> full_path e | None \<Rightarrow> name)"
proof (induction c name i rule: find_title_path_from.induct)
  case (1 cache name i)
  show ?case
  proof (cases "i < count cache")
    case True
    then have "[i..<count cache] = i # [i + 1..<count cache]"
      by (simp add: upt_conv_Cons)
    with True 1 show ?thesis
      by (subst find_title_path_from.simps) simp
  next
    case False
    then show ?thesis using 1(2) by (subst find_title_path_from.simps) simp
  qed
qed

text \<open>
  Claim C3. \<open>find_title_path\<close> returns the stored path of the first catalog entry whose
  display name equals the queried name, and the queried name itself when there is
  none. So on a name no entry carries a second resolution changes nothing, and on an
  empty catalog every name resolves to itself.
\<close>

theorem find_title_path_resolves:
  "find_title_path c name =
     (case find (\<lambda>e. display_name e = name) (catalog c) of
        Some e \<Rightarrow> full_path e | None \<Rightarrow> name) \<and>
   (find (\<lambda>e. display_name e = name) (catalog c) = None \<longrightarrow>
      find_title_path c name = name \<and> find_title_path c (find_title_path c name) = name) \<and>
   (catalog c = [] \<longrightarrow> find_title_path c name = name)"
  using find_title_path_from_eq [of 0 c name]
  by (auto simp add: find_title_path_def catalog_def)

lemma catalog_two_titles:
  "catalog two_titles =
     [\<lparr>display_name = ''a.nsp'', full_path = ''/t/a.nsp''\<rparr>,
      \<lparr>display_name = ''b.XCI'', full_path = ''/t/sub/b.XCI''\<rparr>]"
  by (simp add: catalog_def two_titles_def add_title_def empty_cache_def MAX_TITLES_def
      MAX_PATH_LEN_def upt_rec [of 0] upt_rec [of 1] upt_rec [of 2])

lemma catalog_empty_cache [simp]: "catalog empty_cache = []"
  by (simp add: catalog_def empty_cache_def)

theorem find_title_path_resolves_witness:
  "find_title_path two_titles ''b.XCI'' = ''/t/sub/b.XCI'' \<and>
   find_title_path two_titles ''c.nsz'' = ''c.nsz'' \<and>
   find_title_path two_titles (find_title_path two_titles ''c.nsz'') = ''c.nsz'' \<and>
   find_title_path empty_cache ''a.nsp'' = ''a.nsp''"
  using find_title_path_resolves [of two_titles "''b.XCI''"]
    find_title_path_resolves [of two_titles "''c.nsz''"]
    find_title_path_resolves [of empty_cache "''a.nsp''"]
  by (simp add: catalog_two_titles)

subsection \<open>The session loop, one iteration\<close>

lemma usb_read_world:
  "usb_read w sz = (ret, buf, w1) \<Longrightarrow> w1 = w\<lparr>usb_reads := usb_reads w + 1\<rparr>"
  by (auto simp add: usb_read_def Let_def split: if_splits)

text \<open>
  Claim C7. When the header read returns fewer than 16 bytes, or the first four bytes
  of the buffer are not the magic tag, the iteration ends at the loop head with the
  cache as it was and the world changed only in the count of transfers made: nothing
  is written, and the result does not depend on any other byte of the buffer. The
  loop then behaves as it does from that state.
\<close>

theorem bad_header_is_discarded:
  assumes "usb_read w 16 = (ret, cmd_header, w1)"
    and "ret < 16 \<or> take 4 cmd_header \<noteq> magic"
  shows "poll_iteration work_dir cache w = Some (Continue cache w1) \<and>
         w1 = w\<lparr>usb_reads := usb_reads w + 1\<rparr> \<and>
         usb_out w1 = usb_out w \<and>
         poll_loop work_dir cache w = poll_loop work_dir cache w1"
proof -
  have it: "poll_iteration work_dir cache w = Some (Continue cache w1)"
    using assms by (auto simp add: poll_iteration_def)
  have w1: "w1 = w\<lparr>usb_reads := usb_reads w + 1\<rparr>"
    using assms(1) by (rule usb_read_world)
  have "poll_loop work_dir cache w = poll_loop work_dir cache w1"
    by (subst poll_loop.simps) (simp add: it)
  with it w1 show ?thesis by simp
qed

theorem bad_header_is_discarded_witness:
  "poll_iteration ''/t'' two_titles (host [delivered [0x44, 0x42, 0x49]])
     = Some (Continue two_titles (host [delivered [0x44, 0x42, 0x49]]\<lparr>usb_reads := 1\<rparr>)) \<and>
   poll_iteration ''/t'' two_titles (host [delivered bad_magic])
     = Some (Continue two_titles (host [delivered bad_magic]\<lparr>usb_reads := 1\<rparr>))"
proof -
  have r1: "usb_read (host [delivered [0x44, 0x42, 0x49]]) 16
      = (3, [0x44, 0x42, 0x49], host [delivered [0x44, 0x42, 0x49]]\<lparr>usb_reads := 1\<rparr>)"
    by (simp add: usb_read_def host_def script_def delivered_def Let_def)
  have r2: "usb_read (host [delivered bad_magic]) 16
      = (16, bad_magic, host [delivered bad_magic]\<lparr>usb_reads := 1\<rparr>)"
    by (simp add: usb_read_def host_def script_def delivered_def bad_magic_def Let_def)
  have m: "take 4 bad_magic \<noteq> magic"
    by (simp add: bad_magic_def magic_def)
  show ?thesis
    using bad_header_is_discarded [OF r1, of "''/t''" two_titles]
      bad_header_is_discarded [OF r2, of "''/t''" two_titles] m
    by simp
qed



subsection \<open>The FileRange request payload\<close>

lemma unat_of_char: "unat (of_char c :: byte) = of_char c"
proof -
  have "unat (of_char c :: byte) = unat (of_nat (of_char c) :: byte)"
    by (simp only: of_nat_of_char)
  also have "\<dots> = of_char c mod 256"
    by (simp add: unat_of_nat)
  finally show ?thesis by (simp add: of_char_mod_256)
qed

lemma char_of_unat_of_char [simp]: "char_of (unat (of_char c :: byte)) = c"
  by (simp add: unat_of_char)

lemma of_char_eq_0_iff: "(of_char c :: byte) = 0 \<longleftrightarrow> c = CHR 0x00"
proof -
  have "(of_char c :: byte) = 0 \<longleftrightarrow> unat (of_char c :: byte) = 0"
    by (simp add: unat_eq_0)
  also have "\<dots> \<longleftrightarrow> (of_char c :: nat) = of_char (CHR 0x00)"
    by (simp add: unat_of_char)
  also have "\<dots> \<longleftrightarrow> c = CHR 0x00"
    by (simp only: of_char_eq_iff)
  finally show ?thesis .
qed



lemma join_u64: "ucast (ucast off :: u32) OR push_bit 32 (ucast (ucast (drop_bit 32 off) :: u32)) = (off :: u64)"
  apply (rule bit_word_eqI)
  apply (auto simp add: bit_simps)
  done

lemma load_payload_fields:
  "load_u32 (file_range_payload sz off len name) 0 = sz"
  "load_u64 (file_range_payload sz off len name) 4 = off"
  "load_u32 (file_range_payload sz off len name) 12 = len"
proof -
  let ?rest = "map of_char name @ [0 :: byte]"
  show "load_u32 (file_range_payload sz off len name) 0 = sz"
    using load_store_u32 [of "[]" sz] by (simp add: file_range_payload_def)
  have lo: "load_u32 (file_range_payload sz off len name) 4 = ucast off"
    using load_store_u32 [of "store_u32 sz" "ucast off"
        "store_u32 (ucast (drop_bit 32 off)) @ store_u32 len @ ?rest"]
    by (simp add: file_range_payload_def)
  have hi: "load_u32 (file_range_payload sz off len name) 8 = ucast (drop_bit 32 off)"
    using load_store_u32 [of "store_u32 sz @ store_u32 (ucast off)" "ucast (drop_bit 32 off)"
        "store_u32 len @ ?rest"]
    by (simp add: file_range_payload_def)
  show "load_u64 (file_range_payload sz off len name) 4 = off"
    by (simp add: load_u64_def lo hi join_u64)
  show "load_u32 (file_range_payload sz off len name) 12 = len"
    using load_store_u32 [of "store_u32 sz @ store_u32 (ucast off) @ store_u32 (ucast (drop_bit 32 off))"
        len ?rest]
    by (simp add: file_range_payload_def)
qed

lemma payload_name_payload:
  assumes "CHR 0x00 \<notin> set name"
  shows "takeWhile (\<lambda>b. b \<noteq> 0) (take n (map of_char name @ [0 :: byte]))
           = map of_char (take n name)"
proof -
  have nz: "b \<noteq> 0" if "b \<in> set (map of_char name :: byte list)" for b
    using assms that by (auto simp add: of_char_eq_0_iff)
  show ?thesis
  proof (cases "n \<le> length name")
    case True
    then have "take n (map of_char name @ [0 :: byte]) = map of_char (take n name)"
      by (simp add: take_map)
    moreover have "\<forall>b \<in> set (map of_char (take n name) :: byte list). b \<noteq> 0"
      using nz by (auto dest: in_set_takeD)
    ultimately show ?thesis by (simp add: takeWhile_eq_all_conv)
  next
    case False
    then have "take n (map of_char name @ [0 :: byte]) = map of_char name @ [0]"
      by simp
    moreover have "takeWhile (\<lambda>b. b \<noteq> 0) (map of_char name @ [0 :: byte])
        = map of_char name @ takeWhile (\<lambda>b. b \<noteq> 0) [0]"
      by (rule takeWhile_append2) (rule nz)
    ultimately show ?thesis using False by simp
  qed
qed

lemma parse_file_range_payload:
  assumes "CHR 0x00 \<notin> set name" and "length name < MAX_PATH_LEN - 1"
  shows "parse_file_range (file_range_payload sz off len name)
           = Inr \<lparr>range_size = sz, range_offset = off, nsp_name_len = len, nsp_name = name\<rparr>"
proof -
  have d: "drop 16 (file_range_payload sz off len name) = map of_char name @ [0]"
    by (simp add: file_range_payload_def)
  have l: "\<not> length (file_range_payload sz off len name) < 16"
    by (simp add: file_range_payload_def)
  have n: "takeWhile (\<lambda>b. b \<noteq> 0)
             (take (MAX_PATH_LEN - 1) (drop 16 (file_range_payload sz off len name)))
           = map of_char name"
    using payload_name_payload [OF assms(1), of "MAX_PATH_LEN - 1"] assms(2) by (simp add: d)
  show ?thesis
    unfolding parse_file_range_def Let_def n
    using assms(2) l by (simp add: d load_payload_fields comp_def)
qed

subsection \<open>The FileRange handler\<close>

lemma usb_write_out: "usb_write w buf (int n) = w\<lparr>usb_out := usb_out w @ [take n buf]\<rparr>"
  by (simp add: usb_write_def)

lemma stream_range_result:
  assumes "0 < B"
  shows "\<exists>chunks.
           stream_range content pos c e B w = Some (w\<lparr>usb_out := usb_out w @ chunks\<rparr>) \<and>
           prefix (concat chunks) (take (e - c) (drop pos content)) \<and>
           (\<forall>ch \<in> set chunks. ch \<noteq> [] \<and> length ch \<le> B) \<and>
           (pos + (e - c) \<le> length content \<longrightarrow>
              concat chunks = take (e - c) (drop pos content))"
proof (induction "e - c" arbitrary: pos c w rule: less_induct)
  case less
  show ?case
  proof (cases "c < e")
    case False
    then have "stream_range content pos c e B w = Some w"
      by (subst stream_range.simps) (simp add: Let_def)
    with False show ?thesis
      by (intro exI [of _ "[]"]) simp
  next
    case True
    show ?thesis
    proof (cases "e \<le> c + B")
      case last: True
      let ?buffer = "take (e - c) (drop pos content)"
      show ?thesis
      proof (cases "length ?buffer = e - c")
        case False
        then have lt: "length content - pos < e - c"
          by (simp add: min_def split: if_splits)
        have "stream_range content pos c e B w = Some w"
          using True last lt by (subst stream_range.simps) (simp add: Let_def)
        moreover have "\<not> pos + (e - c) \<le> length content"
          using lt by auto
        ultimately show ?thesis
          by (intro exI [of _ "[]"]) simp
      next
        case full: True
        have "stream_range content pos c e B w =
            stream_range content (pos + (e - c)) (c + (e - c)) e (e - c)
              (usb_write w ?buffer (int (e - c)))"
          using True last full by (subst stream_range.simps) (simp add: Let_def)
        also have "\<dots> = Some (usb_write w ?buffer (int (e - c)))"
          using True by (subst stream_range.simps) (simp add: Let_def)
        finally have "stream_range content pos c e B w
            = Some (w\<lparr>usb_out := usb_out w @ [?buffer]\<rparr>)"
          by (simp add: usb_write_out)
        moreover have "?buffer \<noteq> []" using full True by auto
        moreover have "length ?buffer \<le> B" using full last by simp
        ultimately show ?thesis
          by (intro exI [of _ "[?buffer]"]) simp
      qed
    next
      case more: False
      let ?buffer = "take B (drop pos content)"
      show ?thesis
      proof (cases "length ?buffer = B")
        case False
        then have lt: "length content - pos < B"
          by (simp add: min_def split: if_splits)
        have "stream_range content pos c e B w = Some w"
          using True more lt by (subst stream_range.simps) (simp add: Let_def)
        moreover have "\<not> pos + (e - c) \<le> length content"
          using lt more by auto
        ultimately show ?thesis
          by (intro exI [of _ "[]"]) simp
      next
        case full: True
        let ?w = "w\<lparr>usb_out := usb_out w @ [?buffer]\<rparr>"
        have step: "stream_range content pos c e B w =
            stream_range content (pos + B) (c + B) e B ?w"
          using True more full by (subst stream_range.simps) (simp add: usb_write_out Let_def)
        have "e - (c + B) < e - c" using True assms by simp
        from less [OF this, of "pos + B" ?w]
        obtain chunks where
          r: "stream_range content (pos + B) (c + B) e B ?w
                = Some (?w\<lparr>usb_out := usb_out ?w @ chunks\<rparr>)"
          and p: "prefix (concat chunks) (take (e - (c + B)) (drop (pos + B) content))"
          and b: "\<forall>ch \<in> set chunks. ch \<noteq> [] \<and> length ch \<le> B"
          and f: "pos + B + (e - (c + B)) \<le> length content \<longrightarrow>
                    concat chunks = take (e - (c + B)) (drop (pos + B) content)"
          by blast
        have split: "take (e - c) (drop pos content)
            = ?buffer @ take (e - (c + B)) (drop (pos + B) content)"
        proof -
          have "e - c = B + (e - (c + B))" using more by simp
          then have "take (e - c) (drop pos content)
              = take (B + (e - (c + B))) (drop pos content)" by simp
          also have "\<dots> = ?buffer @ take (e - (c + B)) (drop B (drop pos content))"
            by (rule take_add)
          finally show ?thesis by (simp add: add.commute)
        qed
        have ne: "?buffer \<noteq> []" using full assms by auto
        have "stream_range content pos c e B w
            = Some (w\<lparr>usb_out := usb_out w @ (?buffer # chunks)\<rparr>)"
          using step r by simp
        moreover have "prefix (concat (?buffer # chunks)) (take (e - c) (drop pos content))"
          using p by (simp add: split)
        moreover have "\<forall>ch \<in> set (?buffer # chunks). ch \<noteq> [] \<and> length ch \<le> B"
          using b ne by simp
        moreover have "pos + (e - c) \<le> length content \<longrightarrow>
            concat (?buffer # chunks) = take (e - c) (drop pos content)"
          using f more by (simp add: split)
        ultimately show ?thesis by blast
      qed
    qed
  qed
qed

lemma process_file_range_command_unfold:
  assumes "\<not> malloc_null w (unat data_size)"
    and "parse_file_range (take (nat (sint data_size)) (received (usb_in w (usb_reads w))))
           = Inr req"
  shows "process_file_range_command data_size cache w =
           (case fopen_rb w (find_title_path cache (nsp_name req)) of
              None \<Rightarrow> Some (Inr (after_request data_size req w))
            | Some content \<Rightarrow>
                if malloc_null w BUFFER_SEGMENT_DATA_SIZE
                then Some (Inr (after_request data_size req w))
                else map_option Inr
                       (stream_range content (fseek_set (range_offset req)) 0
                          (unat (range_size req)) BUFFER_SEGMENT_DATA_SIZE
                          (after_request data_size req w)))"
  using assms
  by (simp add: process_file_range_command_def usb_read_def usb_write_def Let_def
      after_request_def split: option.splits)

lemma process_file_range_command_result:
  assumes "\<not> malloc_null w (unat data_size)"
    and "parse_file_range (take (nat (sint data_size)) (received (usb_in w (usb_reads w))))
           = Inr req"
  shows "\<exists>chunks.
           process_file_range_command data_size cache w
             = Some (Inr (after_request data_size req w
                 \<lparr>usb_out := usb_out (after_request data_size req w) @ chunks\<rparr>)) \<and>
           (case fopen_rb w (find_title_path cache (nsp_name req)) of
              None \<Rightarrow> chunks = []
            | Some content \<Rightarrow>
                prefix (concat chunks)
                  (take (unat (range_size req)) (drop (fseek_set (range_offset req)) content)) \<and>
                (\<forall>ch \<in> set chunks. ch \<noteq> [] \<and> length ch \<le> BUFFER_SEGMENT_DATA_SIZE) \<and>
                (\<not> malloc_null w BUFFER_SEGMENT_DATA_SIZE \<and>
                 fseek_set (range_offset req) + unat (range_size req) \<le> length content \<longrightarrow>
                   concat chunks
                     = take (unat (range_size req)) (drop (fseek_set (range_offset req)) content)))"
proof (cases "fopen_rb w (find_title_path cache (nsp_name req))")
  case None
  then show ?thesis
    by (intro exI [of _ "[]"]) (simp add: process_file_range_command_unfold [OF assms])
next
  case (Some content)
  show ?thesis
  proof (cases "malloc_null w BUFFER_SEGMENT_DATA_SIZE")
    case True
    with Some show ?thesis
      by (intro exI [of _ "[]"]) (simp add: process_file_range_command_unfold [OF assms])
  next
    case False
    have "0 < BUFFER_SEGMENT_DATA_SIZE" by (simp add: BUFFER_SEGMENT_DATA_SIZE_def)
    from stream_range_result [OF this, of content "fseek_set (range_offset req)" 0
        "unat (range_size req)" "after_request data_size req w"]
    obtain chunks where
      "stream_range content (fseek_set (range_offset req)) 0 (unat (range_size req))
          BUFFER_SEGMENT_DATA_SIZE (after_request data_size req w)
        = Some (after_request data_size req w
            \<lparr>usb_out := usb_out (after_request data_size req w) @ chunks\<rparr>)"
      "prefix (concat chunks)
         (take (unat (range_size req)) (drop (fseek_set (range_offset req)) content))"
      "\<forall>ch \<in> set chunks. ch \<noteq> [] \<and> length ch \<le> BUFFER_SEGMENT_DATA_SIZE"
      "fseek_set (range_offset req) + unat (range_size req) \<le> length content \<longrightarrow>
         concat chunks
           = take (unat (range_size req)) (drop (fseek_set (range_offset req)) content)"
      by auto
    with Some False show ?thesis
      by (intro exI [of _ chunks]) (simp add: process_file_range_command_unfold [OF assms])
  qed
qed

lemma fseek_set_unat:
  assumes "unat off < 2 ^ 63"
  shows "fseek_set off = unat off"
proof -
  have "unat (drop_bit 63 off) = drop_bit 63 (unat off)"
    by (rule unat_drop_bit_eq)
  also have "\<dots> = unat off div 2 ^ 63"
    by (rule drop_bit_eq_div)
  also have "\<dots> = 0"
    using assms by simp
  finally have "unat (drop_bit 63 off) = 0" .
  then have "drop_bit 63 off = 0"
    by (simp add: unat_eq_0)
  then have "\<not> bit off 63"
    using drop_bit_eq_zero_iff_not_bit_last [of off] by simp
  then have "\<not> sint off < 0"
    using bit_last_iff [of off] by simp
  then show ?thesis
    by (simp add: fseek_set_def)
qed

text \<open>
  Streaming, for a request whose name \<^verbatim>\<open>strncpy\<close> can read within the delivered bytes (it
  ends in a NUL there, or fills all of \<open>MAX_PATH_LEN - 1\<close>). Let the range size be \<open>S\<close>, the
  offset \<open>O\<close>, and let the name resolve to a file that opens and holds at least \<open>O + S\<close>
  bytes: after the Ack header and the Response header declaring \<open>S\<close>, the handler writes
  chunks whose concatenation is the file's bytes from \<open>O\<close> to \<open>O + S\<close>, whose sizes sum to
  \<open>S\<close>, each non-empty and of at most 0x100000 bytes; when \<open>S\<close> is 0 the header declares 0
  and no chunk is written. The handler returns. Both allocations are taken to succeed,
  and the file is shorter than \<open>2^63\<close> bytes, as every file whose size fits \<^verbatim>\<open>off_t\<close> is.
\<close>

theorem file_range_streams_requested_bytes:
  assumes "\<not> malloc_null w (unat data_size)"
    and "\<not> malloc_null w BUFFER_SEGMENT_DATA_SIZE"
    and "parse_file_range (take (nat (sint data_size)) (received (usb_in w (usb_reads w))))
           = Inr req"
    and "fopen_rb w (find_title_path cache (nsp_name req)) = Some content"
    and "unat (range_offset req) + unat (range_size req) \<le> length content"
    and "length content < 2 ^ 63"
  shows "\<exists>chunks.
           process_file_range_command data_size cache w
             = Some (Inr (w\<lparr>usb_out := usb_out w @
                   [encode_header CMD_TYPE_ACK CMD_FILE_RANGE data_size,
                    encode_header CMD_TYPE_RESPONSE CMD_FILE_RANGE (range_size req)] @ chunks,
                 usb_reads := usb_reads w + 2\<rparr>)) \<and>
           concat chunks
             = take (unat (range_size req)) (drop (unat (range_offset req)) content) \<and>
           sum_list (map length chunks) = unat (range_size req) \<and>
           (\<forall>ch \<in> set chunks. ch \<noteq> [] \<and> length ch \<le> 0x100000) \<and>
           (range_size req = 0 \<longrightarrow> chunks = [])"
proof -
  have pos: "fseek_set (range_offset req) = unat (range_offset req)"
    using assms(5,6) by (intro fseek_set_unat) simp
  from process_file_range_command_result [OF assms(1,3), of cache]
  obtain chunks where
    r: "process_file_range_command data_size cache w
          = Some (Inr (after_request data_size req w
              \<lparr>usb_out := usb_out (after_request data_size req w) @ chunks\<rparr>))"
    and b: "\<forall>ch \<in> set chunks. ch \<noteq> [] \<and> length ch \<le> BUFFER_SEGMENT_DATA_SIZE"
    and c: "concat chunks
          = take (unat (range_size req)) (drop (unat (range_offset req)) content)"
    using assms(2,4,5) by (auto simp add: pos)
  have "length (concat chunks) = unat (range_size req)"
    using assms(5) by (simp add: c)
  then have s: "sum_list (map length chunks) = unat (range_size req)"
    by (simp add: length_concat)
  have z: "chunks = []" if "range_size req = 0"
  proof (cases chunks)
    case (Cons ch rest)
    with b have "ch \<noteq> []" by simp
    with Cons c that show ?thesis by simp
  qed simp
  from r b c s z show ?thesis
    by (intro exI [of _ chunks]) (simp add: after_request_def BUFFER_SEGMENT_DATA_SIZE_def)
qed

text \<open>
  Containment, again for a request whose name lies within the delivered bytes. The file
  either does not open or has fewer bytes left at the seek position than the range asks
  for: the handler
  returns after the two headers and the chunks it could read whole, which are a prefix of
  the file at that position and fewer than the declared range size; with no file, none.
  The iteration of the session loop ends at the loop head, and the loop goes on from the
  world the handler left.
\<close>

theorem file_range_failure_is_contained:
  assumes "usb_read w0 16 = (ret, cmd_header, w)"
    and "\<not> ret < 16" and "take 4 cmd_header = magic"
    and "load_u32 cmd_header 8 = CMD_FILE_RANGE"
    and "load_u32 cmd_header 12 = data_size"
    and "\<not> malloc_null w (unat data_size)"
    and "parse_file_range (take (nat (sint data_size)) (received (usb_in w (usb_reads w))))
           = Inr req"
    and "fopen_rb w (find_title_path cache (nsp_name req)) = None \<or>
         (\<exists>content. fopen_rb w (find_title_path cache (nsp_name req)) = Some content \<and>
            range_size req \<noteq> 0 \<and>
            length content < fseek_set (range_offset req) + unat (range_size req))"
  shows "\<exists>chunks w'.
           w' = w\<lparr>usb_out := usb_out w @
                   [encode_header CMD_TYPE_ACK CMD_FILE_RANGE data_size,
                    encode_header CMD_TYPE_RESPONSE CMD_FILE_RANGE (range_size req)] @ chunks,
                 usb_reads := usb_reads w + 2\<rparr> \<and>
           process_file_range_command data_size cache w = Some (Inr w') \<and>
           (fopen_rb w (find_title_path cache (nsp_name req)) = None \<longrightarrow> chunks = []) \<and>
           (\<forall>content. fopen_rb w (find_title_path cache (nsp_name req)) = Some content \<longrightarrow>
              prefix (concat chunks) (drop (fseek_set (range_offset req)) content) \<and>
              length (concat chunks) < unat (range_size req)) \<and>
           poll_iteration work_dir cache w0 = Some (Continue cache w') \<and>
           poll_loop work_dir cache w0 = poll_loop work_dir cache w'"
proof -
  let ?path = "find_title_path cache (nsp_name req)"
  let ?pos = "fseek_set (range_offset req)"
  from process_file_range_command_result [OF assms(6,7), of cache]
  obtain chunks where
    r: "process_file_range_command data_size cache w
          = Some (Inr (after_request data_size req w
              \<lparr>usb_out := usb_out (after_request data_size req w) @ chunks\<rparr>))"
    and k0: "case fopen_rb w ?path of
              None \<Rightarrow> chunks = []
            | Some content \<Rightarrow>
                prefix (concat chunks) (take (unat (range_size req)) (drop ?pos content)) \<and>
                (\<forall>ch \<in> set chunks. ch \<noteq> [] \<and> length ch \<le> BUFFER_SEGMENT_DATA_SIZE) \<and>
                (\<not> malloc_null w BUFFER_SEGMENT_DATA_SIZE \<and>
                 ?pos + unat (range_size req) \<le> length content \<longrightarrow>
                   concat chunks = take (unat (range_size req)) (drop ?pos content))"
    by blast
  have k: "case fopen_rb w ?path of
              None \<Rightarrow> chunks = []
            | Some content \<Rightarrow>
                prefix (concat chunks) (take (unat (range_size req)) (drop ?pos content))"
    using k0 by (cases "fopen_rb w ?path") simp_all
  define w' where "w' = w\<lparr>usb_out := usb_out w @
      [encode_header CMD_TYPE_ACK CMD_FILE_RANGE data_size,
       encode_header CMD_TYPE_RESPONSE CMD_FILE_RANGE (range_size req)] @ chunks,
      usb_reads := usb_reads w + 2\<rparr>"
  have r': "process_file_range_command data_size cache w = Some (Inr w')"
    by (simp add: r w'_def after_request_def)
  have none: "chunks = []" if "fopen_rb w ?path = None"
    using k that by simp
  have some: "prefix (concat chunks) (drop ?pos content) \<and>
      length (concat chunks) < unat (range_size req)"
    if o: "fopen_rb w ?path = Some content" for content
  proof -
    have p: "prefix (concat chunks) (take (unat (range_size req)) (drop ?pos content))"
      using k o by simp
    have short: "length content < ?pos + unat (range_size req)"
      using assms(8) o by auto
    have nz: "0 < unat (range_size req)"
      using assms(8) o by (auto simp add: unat_gt_0)
    have "length (concat chunks) \<le> length (take (unat (range_size req)) (drop ?pos content))"
      using p by (rule prefix_length_le)
    also have "\<dots> < unat (range_size req)"
      using short nz by simp
    finally have "length (concat chunks) < unat (range_size req)" .
    moreover have "prefix (concat chunks) (drop ?pos content)"
      using p take_is_prefix prefix_order.order_trans by blast
    ultimately show ?thesis by simp
  qed
  have cmd: "CMD_FILE_RANGE \<noteq> CMD_EXIT" "CMD_FILE_RANGE \<noteq> CMD_LIST"
    by (simp_all add: CMD_FILE_RANGE_def CMD_EXIT_def CMD_LIST_def)
  have it: "poll_iteration work_dir cache w0 = Some (Continue cache w')"
    using assms(1-5) r' cmd by (simp add: poll_iteration_def)
  have "poll_loop work_dir cache w0 = poll_loop work_dir cache w'"
    by (subst poll_loop.simps) (simp add: it)
  with r' none some it show ?thesis
    by (intro exI [of _ chunks] exI [of _ w']) (simp add: w'_def)
qed

lemma find_title_path_catalog:
  "find_title_path c name =
     (case find (\<lambda>e. display_name e = name) (catalog c) of
        Some e \<Rightarrow> full_path e | None \<Rightarrow> name)"
  using find_title_path_from_eq [of 0 c name]
  by (simp add: find_title_path_def catalog_def)

lemma length_file_range_payload [simp]:
  "length (file_range_payload sz off len name) = 17 + length name"
  by (simp add: file_range_payload_def)

lemma range_session_simps [simp]:
  "usb_reads (range_session sz off name) = 0"
  "usb_out (range_session sz off name) = []"
  "malloc_null (range_session sz off name) n = False"
  "received (usb_in (range_session sz off name) 0)
     = file_range_payload sz off (of_nat (length name)) name"
  "fopen_rb (range_session sz off name) ''/t/a.nsp''
     = Some [10, 11, 12, 13, 14, 15, 16, 17, 18, 19]"
  "fopen_rb (range_session sz off name) ''missing.nsp'' = None"
  by (simp_all add: range_session_def host_def script_def delivered_def)

theorem file_range_streams_requested_bytes_witness:
  "(\<exists>chunks.
      process_file_range_command 22 two_titles (range_session 4 2 ''a.nsp'')
        = Some (Inr (range_session 4 2 ''a.nsp''
            \<lparr>usb_out := [encode_header CMD_TYPE_ACK CMD_FILE_RANGE 22,
                 encode_header CMD_TYPE_RESPONSE CMD_FILE_RANGE 4] @ chunks,
              usb_reads := 2\<rparr>)) \<and>
      concat chunks = [12, 13, 14, 15]) \<and>
   process_file_range_command 22 two_titles (range_session 0 2 ''a.nsp'')
     = Some (Inr (range_session 0 2 ''a.nsp''
         \<lparr>usb_out := [encode_header CMD_TYPE_ACK CMD_FILE_RANGE 22,
              encode_header CMD_TYPE_RESPONSE CMD_FILE_RANGE 0],
           usb_reads := 2\<rparr>))"
proof -
  have p: "parse_file_range
      (take (nat (sint (22 :: u32)))
        (received (usb_in (range_session sz 2 ''a.nsp'') (usb_reads (range_session sz 2 ''a.nsp'')))))
      = Inr \<lparr>range_size = sz, range_offset = 2, nsp_name_len = 5, nsp_name = ''a.nsp''\<rparr>" for sz
    by (simp add: parse_file_range_payload MAX_PATH_LEN_def)
  have f: "fopen_rb (range_session sz 2 ''a.nsp'')
      (find_title_path two_titles
        (nsp_name \<lparr>range_size = sz, range_offset = 2, nsp_name_len = 5, nsp_name = ''a.nsp''\<rparr>))
      = Some [10, 11, 12, 13, 14, 15, 16, 17, 18, 19]" for sz
    by (simp add: find_title_path_catalog catalog_two_titles)
  have m: "\<not> malloc_null (range_session sz 2 ''a.nsp'') n" for sz n
    by simp
  show ?thesis
    using file_range_streams_requested_bytes [OF m m p [of 4] f]
      file_range_streams_requested_bytes [OF m m p [of 0] f]
    by (auto simp flip: numeral_2_eq_2)
qed

lemma polled_range_session_simps [simp]:
  "usb_reads (polled_range_session sz off name) = 0"
  "usb_out (polled_range_session sz off name) = []"
  "malloc_null (polled_range_session sz off name) n = False"
  "received (usb_in (polled_range_session sz off name) (Suc 0))
     = file_range_payload sz off (of_nat (length name)) name"
  "fopen_rb (polled_range_session sz off name) ''/t/a.nsp''
     = Some [10, 11, 12, 13, 14, 15, 16, 17, 18, 19]"
  "fopen_rb (polled_range_session sz off name) ''missing.nsp'' = None"
  by (simp_all add: polled_range_session_def host_def script_def delivered_def)

lemma usb_read_polled_range_session:
  "usb_read (polled_range_session sz off name) 16
     = (16, range_request name, polled_range_session sz off name\<lparr>usb_reads := 1\<rparr>)"
  by (simp add: usb_read_def polled_range_session_def host_def script_def delivered_def
      range_request_def Let_def)

theorem file_range_failure_is_contained_witness:
  "poll_iteration ''/t'' two_titles (polled_range_session 4 0 ''missing.nsp'')
     = Some (Continue two_titles (polled_range_session 4 0 ''missing.nsp''
         \<lparr>usb_out := [encode_header CMD_TYPE_ACK CMD_FILE_RANGE 28,
              encode_header CMD_TYPE_RESPONSE CMD_FILE_RANGE 4],
           usb_reads := 3\<rparr>)) \<and>
   (\<exists>chunks.
      poll_iteration ''/t'' two_titles (polled_range_session 4 8 ''a.nsp'')
        = Some (Continue two_titles (polled_range_session 4 8 ''a.nsp''
            \<lparr>usb_out := [encode_header CMD_TYPE_ACK CMD_FILE_RANGE 22,
                 encode_header CMD_TYPE_RESPONSE CMD_FILE_RANGE 4] @ chunks,
              usb_reads := 3\<rparr>)) \<and>
      prefix (concat chunks) [18, 19] \<and> length (concat chunks) < 4)"
proof -
  let ?w1 = "polled_range_session 4 0 ''missing.nsp''"
  let ?w2 = "polled_range_session 4 8 ''a.nsp''"
  have m: "take 4 (range_request name) = magic" for name
    by (simp add: range_request_def)
  have i: "load_u32 (range_request name) 8 = CMD_FILE_RANGE" for name
    by (simp add: range_request_def load_u32_encode_header)
  have d1: "load_u32 (range_request ''missing.nsp'') 12 = 28"
    by (simp add: range_request_def load_u32_encode_header)
  have d2: "load_u32 (range_request ''a.nsp'') 12 = 22"
    by (simp add: range_request_def load_u32_encode_header)
  have p1: "parse_file_range (take (nat (sint (28 :: u32)))
        (received (usb_in (?w1\<lparr>usb_reads := 1\<rparr>) (usb_reads (?w1\<lparr>usb_reads := 1\<rparr>)))))
      = Inr \<lparr>range_size = 4, range_offset = 0, nsp_name_len = 11, nsp_name = ''missing.nsp''\<rparr>"
    by (simp add: parse_file_range_payload MAX_PATH_LEN_def)
  have p2: "parse_file_range (take (nat (sint (22 :: u32)))
        (received (usb_in (?w2\<lparr>usb_reads := 1\<rparr>) (usb_reads (?w2\<lparr>usb_reads := 1\<rparr>)))))
      = Inr \<lparr>range_size = 4, range_offset = 8, nsp_name_len = 5, nsp_name = ''a.nsp''\<rparr>"
    by (simp add: parse_file_range_payload MAX_PATH_LEN_def)
  have f1: "fopen_rb (?w1\<lparr>usb_reads := 1\<rparr>) (find_title_path two_titles
        (nsp_name \<lparr>range_size = 4, range_offset = 0, nsp_name_len = 11,
           nsp_name = ''missing.nsp''\<rparr>)) = None \<or>
      (\<exists>content. fopen_rb (?w1\<lparr>usb_reads := 1\<rparr>) (find_title_path two_titles
        (nsp_name \<lparr>range_size = 4, range_offset = 0, nsp_name_len = 11,
           nsp_name = ''missing.nsp''\<rparr>)) = Some content \<and>
        range_size \<lparr>range_size = 4, range_offset = 0, nsp_name_len = 11,
           nsp_name = ''missing.nsp''\<rparr> \<noteq> 0 \<and>
        length content < fseek_set (range_offset \<lparr>range_size = 4, range_offset = 0,
           nsp_name_len = 11, nsp_name = ''missing.nsp''\<rparr>)
          + unat (range_size \<lparr>range_size = 4, range_offset = 0, nsp_name_len = 11,
           nsp_name = ''missing.nsp''\<rparr>))"
    by (simp add: find_title_path_catalog catalog_two_titles)
  have f2: "fopen_rb (?w2\<lparr>usb_reads := 1\<rparr>) (find_title_path two_titles
        (nsp_name \<lparr>range_size = 4, range_offset = 8, nsp_name_len = 5,
           nsp_name = ''a.nsp''\<rparr>)) = None \<or>
      (\<exists>content. fopen_rb (?w2\<lparr>usb_reads := 1\<rparr>) (find_title_path two_titles
        (nsp_name \<lparr>range_size = 4, range_offset = 8, nsp_name_len = 5,
           nsp_name = ''a.nsp''\<rparr>)) = Some content \<and>
        range_size \<lparr>range_size = 4, range_offset = 8, nsp_name_len = 5,
           nsp_name = ''a.nsp''\<rparr> \<noteq> 0 \<and>
        length content < fseek_set (range_offset \<lparr>range_size = 4, range_offset = 8,
           nsp_name_len = 5, nsp_name = ''a.nsp''\<rparr>)
          + unat (range_size \<lparr>range_size = 4, range_offset = 8, nsp_name_len = 5,
           nsp_name = ''a.nsp''\<rparr>))"
    by (simp add: find_title_path_catalog catalog_two_titles fseek_set_def)
  have n: "\<not> malloc_null (polled_range_session sz off name\<lparr>usb_reads := 1\<rparr>) k" for sz off name k
    by simp
  have l: "\<not> (16 :: int) < 16" by simp
  show ?thesis
    using file_range_failure_is_contained
        [OF usb_read_polled_range_session l m i d1 n p1 f1, of "''/t''"]
      file_range_failure_is_contained
        [OF usb_read_polled_range_session l m i d2 n p2 f2, of "''/t''"]
    by (auto simp add: find_title_path_catalog catalog_two_titles fseek_set_def
        simp flip: numeral_3_eq_3)
qed

subsection \<open>A name with no terminator in the request\<close>

text \<open>
  A request shorter than \<open>16 + (MAX_PATH_LEN - 1)\<close> bytes with no NUL from offset 16 on:
  \<^verbatim>\<open>strncpy\<close> runs off the end of the \<^verbatim>\<open>malloc\<close>ed block looking for one. That is every
  request that carries the bytes of a name shorter than \<open>MAX_PATH_LEN - 1\<close> and nothing
  after them.
\<close>

lemma parse_file_range_unterminated:
  assumes "length buf < 16 + (MAX_PATH_LEN - 1)" and "0 \<notin> set (drop 16 buf)"
  shows "parse_file_range buf = Inl Invalid_Read"
proof (cases "length buf < 16")
  case True
  then show ?thesis by (simp add: parse_file_range_def)
next
  case False
  have t: "take (MAX_PATH_LEN - 1) (drop 16 buf) = drop 16 buf"
    using assms(1) by simp
  have n: "takeWhile (\<lambda>b. b \<noteq> 0) (drop 16 buf) = drop 16 buf"
    using assms(2) by (intro takeWhile_eq_all_conv [THEN iffD2]) auto
  have "length (drop 16 buf) < MAX_PATH_LEN - 1"
    using assms(1) False by simp
  then show ?thesis
    unfolding parse_file_range_def Let_def t n using False by simp
qed

lemma process_file_range_command_unterminated:
  assumes "\<not> malloc_null w (unat data_size)"
    and "length (take (nat (sint data_size)) (received (usb_in w (usb_reads w))))
           < 16 + (MAX_PATH_LEN - 1)"
    and "0 \<notin> set (drop 16 (take (nat (sint data_size)) (received (usb_in w (usb_reads w)))))"
  shows "process_file_range_command data_size cache w = Some (Inl Invalid_Read)"
  using assms(1) parse_file_range_unterminated [OF assms(2,3)]
  by (simp add: process_file_range_command_def usb_read_def usb_write_def Let_def)

lemma poll_iteration_unterminated:
  assumes "usb_read w0 16 = (ret, cmd_header, w)"
    and "\<not> ret < 16" and "take 4 cmd_header = magic"
    and "load_u32 cmd_header 8 = CMD_FILE_RANGE"
    and "load_u32 cmd_header 12 = data_size"
    and "\<not> malloc_null w (unat data_size)"
    and "length (take (nat (sint data_size)) (received (usb_in w (usb_reads w))))
           < 16 + (MAX_PATH_LEN - 1)"
    and "0 \<notin> set (drop 16 (take (nat (sint data_size)) (received (usb_in w (usb_reads w)))))"
  shows "poll_iteration work_dir cache w0 = Some (Undefined Invalid_Read)"
    and "poll_loop work_dir cache w0 = Some (Inl Invalid_Read)"
proof -
  have cmd: "CMD_FILE_RANGE \<noteq> CMD_EXIT" "CMD_FILE_RANGE \<noteq> CMD_LIST"
    by (simp_all add: CMD_FILE_RANGE_def CMD_EXIT_def CMD_LIST_def)
  show it: "poll_iteration work_dir cache w0 = Some (Undefined Invalid_Read)"
    using assms(1-5) cmd process_file_range_command_unterminated [OF assms(6-8), of cache]
    by (simp add: poll_iteration_def)
  show "poll_loop work_dir cache w0 = Some (Inl Invalid_Read)"
    by (subst poll_loop.simps) (simp add: it)
qed

lemma length_file_range_request_bytes [simp]:
  "length (file_range_request_bytes sz off name) = 16 + length name"
  by (simp add: file_range_request_bytes_def)

lemma drop_16_file_range_request_bytes [simp]:
  "drop 16 (file_range_request_bytes sz off name) = map of_char name"
  by (simp add: file_range_request_bytes_def)

lemma load_request_bytes_fields:
  "load_u32 (file_range_request_bytes sz off name) 0 = sz"
  "load_u64 (file_range_request_bytes sz off name) 4 = off"
  "load_u32 (file_range_request_bytes sz off name) 12 = of_nat (length name)"
proof -
  have e: "file_range_payload sz off (of_nat (length name)) name
      = file_range_request_bytes sz off name @ [0]"
    by (simp add: file_range_payload_def file_range_request_bytes_def)
  have a: "load_u32 (xs @ ys) k = load_u32 xs k" if "k + 4 \<le> length xs"
    for xs ys :: "byte list" and k
    using that by (simp add: load_u32_def nth_append)
  have b: "load_u64 (xs @ ys) k = load_u64 xs k" if "k + 8 \<le> length xs"
    for xs ys :: "byte list" and k
    using that by (simp add: load_u64_def a)
  show "load_u32 (file_range_request_bytes sz off name) 0 = sz"
    using load_payload_fields(1) [of sz off "of_nat (length name)" name] by (simp add: e a)
  show "load_u64 (file_range_request_bytes sz off name) 4 = off"
    using load_payload_fields(2) [of sz off "of_nat (length name)" name] by (simp add: e b)
  show "load_u32 (file_range_request_bytes sz off name) 12 = of_nat (length name)"
    using load_payload_fields(3) [of sz off "of_nat (length name)" name] by (simp add: e a)
qed

lemma wire_range_session_simps [simp]:
  "usb_reads (wire_range_session sz off name) = 0"
  "usb_out (wire_range_session sz off name) = []"
  "malloc_null (wire_range_session sz off name) n = False"
  "received (usb_in (wire_range_session sz off name) 0) = file_range_request_bytes sz off name"
  "fopen_rb (wire_range_session sz off name) ''/t/a.nsp''
     = Some [10, 11, 12, 13, 14, 15, 16, 17, 18, 19]"
  by (simp_all add: wire_range_session_def host_def script_def delivered_def)

lemma polled_wire_range_session_simps [simp]:
  "usb_reads (polled_wire_range_session sz off name) = 0"
  "usb_out (polled_wire_range_session sz off name) = []"
  "malloc_null (polled_wire_range_session sz off name) n = False"
  "received (usb_in (polled_wire_range_session sz off name) (Suc 0))
     = file_range_request_bytes sz off name"
  "fopen_rb (polled_wire_range_session sz off name) ''/t/a.nsp''
     = Some [10, 11, 12, 13, 14, 15, 16, 17, 18, 19]"
  "fopen_rb (polled_wire_range_session sz off name) ''missing.nsp'' = None"
  by (simp_all add: polled_wire_range_session_def host_def script_def delivered_def)

lemma usb_read_polled_wire_range_session:
  "usb_read (polled_wire_range_session sz off name) 16
     = (16, wire_range_request name, polled_wire_range_session sz off name\<lparr>usb_reads := 1\<rparr>)"
  by (simp add: usb_read_def polled_wire_range_session_def host_def script_def delivered_def
      wire_range_request_def Let_def)

text \<open>
  Claim C1 is not met by the code on a request laid out as the wire format has it. The
  request is 21 bytes: range size 4, offset 2, name length 5 and the five bytes of
  \<open>a.nsp\<close>, announced with a payload length of 21. The name resolves to a ten-byte file
  that opens, so the range lies within it and four bytes are due. The handler
  \<^verbatim>\<open>malloc\<close>s 21 bytes, and \<^verbatim>\<open>strncpy\<close>, bounded by \<open>MAX_PATH_LEN - 1\<close> and not by the name
  length it has just loaded, reads past the end of that block for a NUL: the behaviour is
  undefined before any name is resolved, and nothing about the bytes sent is guaranteed.
\<close>

theorem unterminated_name_is_read_past_the_request:
  "length (file_range_request_bytes 4 2 ''a.nsp'') = 21 \<and>
   load_u32 (file_range_request_bytes 4 2 ''a.nsp'') 0 = 4 \<and>
   load_u64 (file_range_request_bytes 4 2 ''a.nsp'') 4 = 2 \<and>
   load_u32 (file_range_request_bytes 4 2 ''a.nsp'') 12 = 5 \<and>
   drop 16 (file_range_request_bytes 4 2 ''a.nsp'') = map of_char ''a.nsp'' \<and>
   fopen_rb (wire_range_session 4 2 ''a.nsp'') (find_title_path two_titles ''a.nsp'')
     = Some [10, 11, 12, 13, 14, 15, 16, 17, 18, 19] \<and>
   process_file_range_command 21 two_titles (wire_range_session 4 2 ''a.nsp'')
     = Some (Inl Invalid_Read)"
proof -
  have z: "0 \<notin> set (map of_char ''a.nsp'' :: byte list)"
    by (simp add: of_char_eq_0_iff)
  have p: "process_file_range_command 21 two_titles (wire_range_session 4 2 ''a.nsp'')
      = Some (Inl Invalid_Read)"
    by (rule process_file_range_command_unterminated) (simp_all add: MAX_PATH_LEN_def z)
  have f: "fopen_rb (wire_range_session 4 2 ''a.nsp'') (find_title_path two_titles ''a.nsp'')
      = Some [10, 11, 12, 13, 14, 15, 16, 17, 18, 19]"
    by (simp add: find_title_path_catalog catalog_two_titles)
  show ?thesis
    using load_request_bytes_fields [of 4 2 "''a.nsp''"] p f by simp
qed

text \<open>
  Claim C9 is not met by the code on such requests either, through the same read past
  the request. Two sessions start with a FileRange header and the request it announces:
  one names \<open>missing.nsp\<close>, which does not open, the other asks for four bytes at offset 8
  of the ten-byte \<open>a.nsp\<close>, two more than are left. In both, the iteration of the session
  loop does not come back to the loop head: the handler's behaviour is undefined at the
  \<^verbatim>\<open>strncpy\<close>, and so is the run of the loop from there.
\<close>

theorem unterminated_name_is_not_contained:
  "fopen_rb (polled_wire_range_session 4 0 ''missing.nsp'')
       (find_title_path two_titles ''missing.nsp'') = None \<and>
   poll_iteration ''/t'' two_titles (polled_wire_range_session 4 0 ''missing.nsp'')
     = Some (Undefined Invalid_Read) \<and>
   poll_loop ''/t'' two_titles (polled_wire_range_session 4 0 ''missing.nsp'')
     = Some (Inl Invalid_Read) \<and>
   fopen_rb (polled_wire_range_session 4 8 ''a.nsp'') (find_title_path two_titles ''a.nsp'')
     = Some [10, 11, 12, 13, 14, 15, 16, 17, 18, 19] \<and>
   poll_iteration ''/t'' two_titles (polled_wire_range_session 4 8 ''a.nsp'')
     = Some (Undefined Invalid_Read) \<and>
   poll_loop ''/t'' two_titles (polled_wire_range_session 4 8 ''a.nsp'')
     = Some (Inl Invalid_Read)"
proof -
  have m: "take 4 (wire_range_request name) = magic" for name
    by (simp add: wire_range_request_def)
  have i: "load_u32 (wire_range_request name) 8 = CMD_FILE_RANGE" for name
    by (simp add: wire_range_request_def load_u32_encode_header)
  have d1: "load_u32 (wire_range_request ''missing.nsp'') 12 = 27"
    by (simp add: wire_range_request_def load_u32_encode_header)
  have d2: "load_u32 (wire_range_request ''a.nsp'') 12 = 21"
    by (simp add: wire_range_request_def load_u32_encode_header)
  have n: "\<not> malloc_null (polled_wire_range_session sz off name\<lparr>usb_reads := 1\<rparr>) k"
    for sz off name k
    by simp
  have l: "\<not> (16 :: int) < 16" by simp
  let ?w1 = "polled_wire_range_session 4 0 ''missing.nsp''\<lparr>usb_reads := 1\<rparr>"
  let ?w2 = "polled_wire_range_session 4 8 ''a.nsp''\<lparr>usb_reads := 1\<rparr>"
  have s1: "length (take (nat (sint (27 :: u32))) (received (usb_in ?w1 (usb_reads ?w1))))
      < 16 + (MAX_PATH_LEN - 1)"
    by (simp add: MAX_PATH_LEN_def)
  have z1: "0 \<notin> set (drop 16 (take (nat (sint (27 :: u32)))
      (received (usb_in ?w1 (usb_reads ?w1)))))"
    by (simp add: of_char_eq_0_iff)
  have s2: "length (take (nat (sint (21 :: u32))) (received (usb_in ?w2 (usb_reads ?w2))))
      < 16 + (MAX_PATH_LEN - 1)"
    by (simp add: MAX_PATH_LEN_def)
  have z2: "0 \<notin> set (drop 16 (take (nat (sint (21 :: u32)))
      (received (usb_in ?w2 (usb_reads ?w2)))))"
    by (simp add: of_char_eq_0_iff)
  note a = poll_iteration_unterminated
    [OF usb_read_polled_wire_range_session l m i d1 n s1 z1, of "''/t''" two_titles]
  note b = poll_iteration_unterminated
    [OF usb_read_polled_wire_range_session l m i d2 n s2 z2, of "''/t''" two_titles]
  have f1: "fopen_rb (polled_wire_range_session 4 0 ''missing.nsp'')
      (find_title_path two_titles ''missing.nsp'') = None"
    by (simp add: find_title_path_catalog catalog_two_titles)
  have f2: "fopen_rb (polled_wire_range_session 4 8 ''a.nsp'')
      (find_title_path two_titles ''a.nsp'') = Some [10, 11, 12, 13, 14, 15, 16, 17, 18, 19]"
    by (simp add: find_title_path_catalog catalog_two_titles)
  from a b f1 f2 show ?thesis by blast
qed

subsection \<open>The name-length field\<close>






subsection \<open>The scan\<close>

lemma suffix_iff_drop:
  "suffix xs ys \<longleftrightarrow> length xs \<le> length ys \<and> drop (length ys - length xs) ys = xs"
  by (auto simp add: suffix_def) (metis append_take_drop_id)

lemma ends_with_ci_4:
  "length ext = 4 \<Longrightarrow>
   ends_with_ci name ext \<longleftrightarrow>
     4 \<le> length name \<and> map tolower (drop (length name - 4) name) = map tolower ext"
  by (simp add: ends_with_ci_def suffix_iff_drop drop_map)

lemma has_valid_extension_iff: "has_valid_extension name \<longleftrightarrow> is_title_name name"
  by (auto simp add: has_valid_extension_def is_title_name_def ends_with_ci_4 strcasecmp_def
      Let_def)

lemma stat_Regular [simp]: "stat n = S_IFREG \<longleftrightarrow> n = Regular"
  by (cases n) simp_all

lemma count_add_title [simp]: "count (add_title d p c) = count c + 1"
  by (simp add: add_title_def)

lemma snprintf_path_fits:
  "length (path @ ''/'' @ d) < MAX_PATH_LEN \<Longrightarrow> snprintf_path path d = path @ ''/'' @ d"
  by (simp add: snprintf_path_def)

lemma scan_entries_at_capacity:
  "MAX_TITLES \<le> count (titles s) \<Longrightarrow> scan_entries path es s = Inr s"
  by (cases es) auto

lemma scan_count:
  "paths_fit path n \<Longrightarrow> count (titles s) \<le> MAX_TITLES \<Longrightarrow>
     \<exists>s'. scan_directory path n s = Inr s' \<and>
       count (titles s') = min MAX_TITLES (count (titles s) + matching_files n)"
  "entries_fit path es \<Longrightarrow> count (titles s) \<le> MAX_TITLES \<Longrightarrow>
     \<exists>s'. scan_entries path es s = Inr s' \<and>
       count (titles s') = min MAX_TITLES (count (titles s) + matching_entries es)"
proof (induction path n s and path es s rule: scan_directory_scan_entries.induct)
  case (4 path d_name n es s)
  let ?full = "path @ ''/'' @ d_name"
  let ?s1 = "s\<lparr>fs_calls := fs_calls s @ [Stat ?full]\<rparr>"
  show ?case
  proof (cases "count (titles s) < MAX_TITLES")
    case False
    with "4.prems" show ?thesis by simp
  next
    case room: True
    show ?thesis
    proof (cases "d_name = ''.'' \<or> d_name = ''..''")
      case True
      with room "4.IH"(1) "4.prems" show ?thesis by auto
    next
      case named: False
      then have fit: "length ?full < MAX_PATH_LEN" and sub: "paths_fit ?full n"
        and others: "entries_fit path es"
        using "4.prems"(1) by auto
      have full: "snprintf_path path d_name = ?full"
        using fit by (rule snprintf_path_fits)
      have nn: "\<not> \<not> count (titles s) < MAX_TITLES" "\<not> snprintf_path path d_name \<noteq> ?full"
        using room full by simp_all
      have c1: "count (titles ?s1) \<le> MAX_TITLES"
        using "4.prems"(2) by simp
      show ?thesis
      proof (cases "stat n")
        case Stat_Fails
        then have n: "matching_files n = 0" "n \<noteq> Regular" by (cases n; simp)+
        from "4.IH"(2) [OF nn(1) named refl nn(2) refl Stat_Fails others, unfolded full] c1 full
        obtain s' where "scan_entries path es ?s1 = Inr s'"
          "count (titles s') = min MAX_TITLES (count (titles s) + matching_entries es)"
          by auto
        then show ?thesis
          using room named full Stat_Fails n by (simp add: Let_def)
      next
        case S_IFDIR
        then have n: "n \<noteq> Regular" by (cases n; simp)
        from "4.IH"(3) [OF nn(1) named refl nn(2) refl S_IFDIR, unfolded full] sub c1 full
        obtain s2 where d: "scan_directory ?full n ?s1 = Inr s2"
          and c2: "count (titles s2) = min MAX_TITLES (count (titles s) + matching_files n)"
          by auto
        from c2 have c2': "count (titles s2) \<le> MAX_TITLES" by simp
        from "4.IH"(4) [OF nn(1) named refl nn(2) refl S_IFDIR _ others c2', unfolded full] d full
        obtain s' where "scan_entries path es s2 = Inr s'"
          "count (titles s') = min MAX_TITLES (count (titles s2) + matching_entries es)"
          by auto
        then show ?thesis
          using room named full S_IFDIR n d c2 by (simp add: Let_def min_def)
      next
        case S_IFREG
        then have n: "n = Regular" by simp
        show ?thesis
        proof (cases "has_valid_extension d_name")
          case True
          let ?s2 = "?s1\<lparr>titles := add_title d_name ?full (titles ?s1)\<rparr>"
          have c2: "count (titles ?s2) \<le> MAX_TITLES" using room by simp
          from "4.IH"(5) [OF nn(1) named refl nn(2) refl S_IFREG True others, unfolded full] c2 full
          obtain s' where "scan_entries path es ?s2 = Inr s'"
            "count (titles s') = min MAX_TITLES (count (titles ?s2) + matching_entries es)"
            by auto
          then show ?thesis
            using room named full S_IFREG n True
            by (simp add: Let_def has_valid_extension_iff [symmetric])
        next
          case False
          from "4.IH"(6) [OF nn(1) named refl nn(2) refl S_IFREG False others, unfolded full] c1 full
          obtain s' where "scan_entries path es ?s1 = Inr s'"
            "count (titles s') = min MAX_TITLES (count (titles s) + matching_entries es)"
            by auto
          then show ?thesis
            using room named full S_IFREG n False
            by (simp add: Let_def has_valid_extension_iff [symmetric])
        qed
      next
        case S_IFOTHER
        then have n: "matching_files n = 0" "n \<noteq> Regular" by (cases n; simp)+
        from "4.IH"(7) [OF nn(1) named refl nn(2) refl S_IFOTHER others, unfolded full] c1 full
        obtain s' where "scan_entries path es ?s1 = Inr s'"
          "count (titles s') = min MAX_TITLES (count (titles s) + matching_entries es)"
          by auto
        then show ?thesis
          using room named full S_IFOTHER n by (simp add: Let_def)
      qed
    qed
  qed
qed simp_all

lemma has_valid_extension_length: "has_valid_extension d \<Longrightarrow> 4 \<le> length d"
  by (simp add: has_valid_extension_def Let_def split: if_splits)

lemma scan_entries_titles:
  assumes "\<forall>d \<in> set names. has_valid_extension d \<and> length (path @ ''/'' @ d) < MAX_PATH_LEN"
    and "count (titles s) + length names \<le> MAX_TITLES"
  shows "scan_entries path (map (\<lambda>d. (d, Regular)) names @ rest) s
           = scan_entries path rest (foldl (record_title path) s names)"
  using assms
proof (induction names arbitrary: s)
  case Nil
  then show ?case by simp
next
  case (Cons d names)
  have v: "has_valid_extension d" and fit: "length (path @ ''/'' @ d) < MAX_PATH_LEN"
    using Cons.prems(1) by simp_all
  have "4 \<le> length d" using v by (rule has_valid_extension_length)
  then have named: "d \<noteq> ''.''" "d \<noteq> ''..''" by auto
  have room: "count (titles s) < MAX_TITLES" using Cons.prems(2) by simp
  have "scan_entries path (map (\<lambda>d. (d, Regular)) (d # names) @ rest) s
      = scan_entries path (map (\<lambda>d. (d, Regular)) names @ rest) (record_title path s d)"
    using v named room snprintf_path_fits [OF fit] by (simp add: Let_def record_title_def)
  also have "\<dots> = scan_entries path rest (foldl (record_title path) (record_title path s d) names)"
    using Cons.prems by (intro Cons.IH) (simp_all add: record_title_def)
  finally show ?case by simp
qed

lemma count_record_titles:
  "count (titles (foldl (record_title path) s names)) = count (titles s) + length names"
  by (induction names arbitrary: s) (simp_all add: record_title_def)

lemma fs_calls_record_titles:
  "fs_calls (foldl (record_title path) s names)
     = fs_calls s @ map (\<lambda>d. Stat (path @ ''/'' @ d)) names"
  by (induction names arbitrary: s) (simp_all add: record_title_def)

lemma catalog_add_title:
  "count c < length (entries c) \<Longrightarrow>
   catalog (add_title d p c)
     = catalog c @ [\<lparr>display_name = take 255 d, full_path = take (MAX_PATH_LEN - 1) p\<rparr>]"
  by (simp add: catalog_def add_title_def)

lemma length_entries_add_title [simp]: "length (entries (add_title d p c)) = length (entries c)"
  by (simp add: add_title_def)

lemma length_entries_record_titles [simp]:
  "length (entries (titles (foldl (record_title path) s names))) = length (entries (titles s))"
  by (induction names arbitrary: s) (simp_all add: record_title_def)

lemma catalog_record_titles:
  "count (titles s) + length names \<le> length (entries (titles s)) \<Longrightarrow>
   catalog (titles (foldl (record_title path) s names))
     = catalog (titles s)
       @ map (\<lambda>d. \<lparr>display_name = take 255 d,
                    full_path = take (MAX_PATH_LEN - 1) (path @ ''/'' @ d)\<rparr>) names"
proof (induction names arbitrary: s)
  case Nil
  then show ?case by simp
next
  case (Cons d names)
  have "catalog (titles (foldl (record_title path) (record_title path s d) names))
      = catalog (titles (record_title path s d))
        @ map (\<lambda>d. \<lparr>display_name = take 255 d,
                     full_path = take (MAX_PATH_LEN - 1) (path @ ''/'' @ d)\<rparr>) names"
    using Cons.prems by (intro Cons.IH) (simp add: record_title_def)
  moreover have "catalog (titles (record_title path s d))
      = catalog (titles s) @ [\<lparr>display_name = take 255 d,
                               full_path = take (MAX_PATH_LEN - 1) (path @ ''/'' @ d)\<rparr>]"
    using Cons.prems by (simp add: record_title_def catalog_add_title)
  ultimately show ?case by simp
qed

lemma has_valid_extension_numbered [simp]: "has_valid_extension (numbered k)"
  by (simp add: has_valid_extension_def numbered_def strcasecmp_def tolower_def)

lemma length_numbered: "k < 1024 \<Longrightarrow> length (numbered k) = 255"
proof -
  assume "k < 1024"
  then have "k div 32 < 32" and "k mod 32 < 32" by simp_all
  then show ?thesis by (simp add: numbered_def)
qed

lemma count_a_numbered: "length (filter (\<lambda>c. c = CHR ''a'') (numbered k)) = k div 32"
  by (simp add: numbered_def)

lemma count_b_numbered: "length (filter (\<lambda>c. c = CHR ''b'') (numbered k)) = k mod 32"
  by (simp add: numbered_def)

lemma inj_numbered: "inj numbered"
proof (rule injI)
  fix j k assume e: "numbered j = numbered k"
  have "j div 32 = k div 32"
    using count_a_numbered [of j] count_a_numbered [of k] by (simp add: e)
  moreover have "j mod 32 = k mod 32"
    using count_b_numbered [of j] count_b_numbered [of k] by (simp add: e)
  ultimately show "j = k"
    by (metis div_mult_mod_eq)
qed

lemma distinct_title_files: "distinct (map fst (title_files n))"
proof -
  have "map fst (title_files n) = map numbered [0..<n]"
    by (simp add: title_files_def comp_def)
  moreover have "distinct (map numbered [0..<n])"
    using inj_numbered by (simp add: distinct_map inj_on_def inj_def)
  ultimately show ?thesis by simp
qed

lemma title_files_fit:
  "n \<le> 1024 \<Longrightarrow>
   \<forall>d \<in> set (map numbered [0..<n]).
     has_valid_extension d \<and> length (''/t'' @ ''/'' @ d) < MAX_PATH_LEN"
  by (auto simp add: length_numbered MAX_PATH_LEN_def)

lemma title_files_map: "title_files n = map (\<lambda>d. (d, Regular)) (map numbered [0..<n])"
  by (simp add: title_files_def)

lemma scan_title_files:
  assumes "n \<le> 1024" and "count (titles s) + n \<le> MAX_TITLES"
  shows "scan_entries ''/t'' (title_files n @ rest) s
           = scan_entries ''/t'' rest (foldl (record_title ''/t'') s (map numbered [0..<n]))"
  unfolding title_files_map
  using title_files_fit [OF assms(1)] assms(2) by (intro scan_entries_titles) simp_all

lemma matching_entries_append:
  "matching_entries (es @ es') = matching_entries es + matching_entries es'"
  by (induction es) auto

lemma is_title_name_numbered [simp]: "is_title_name (numbered k)"
  using has_valid_extension_numbered by (simp only: has_valid_extension_iff)

lemma numbered_not_dot [simp]: "numbered k \<noteq> ''.''" "numbered k \<noteq> ''..''"
  using has_valid_extension_length [OF has_valid_extension_numbered, of k] by auto

lemma matching_entries_title_files [simp]: "matching_entries (title_files n) = n"
  by (induction n) (simp_all add: title_files_def matching_entries_append)

text \<open>
  Claim C2, as stated, fails. In a directory of 1024 title files followed by a
  subdirectory \<open>more\<close> that holds a 1025th, the rescan records 1024 entries and then
  leaves the loop: \<open>more\<close> is never passed to \<^verbatim>\<open>stat\<close> or \<^verbatim>\<open>opendir\<close>, and the file in it
  is never looked at. The traversal does not go on once the catalog is full.
\<close>

theorem scan_stops_at_capacity:
  "rescan ''/t'' crowded_tree empty_cache = Inr crowded_scan \<and>
   matching_files crowded_tree = 1025 \<and>
   count (titles crowded_scan) = 1024 \<and>
   Stat ''/t/more'' \<notin> set (fs_calls crowded_scan) \<and>
   Opendir ''/t/more'' \<notin> set (fs_calls crowded_scan) \<and>
   Stat ''/t/more/z.nsp'' \<notin> set (fs_calls crowded_scan)"
proof -
  let ?init = "\<lparr>titles = empty_cache\<lparr>count := 0\<rparr>, fs_calls = [Opendir ''/t'']\<rparr>"
  let ?more = "[(''more'', Directory [(''z.nsp'', Regular)])]"
  have c: "count (titles crowded_scan) = 1024"
    by (simp add: crowded_scan_def count_record_titles)
  have "rescan ''/t'' crowded_tree empty_cache = scan_entries ''/t'' (title_files 1024 @ ?more) ?init"
    by (simp add: rescan_def crowded_tree_def)
  also have "\<dots> = scan_entries ''/t'' ?more crowded_scan"
    unfolding crowded_scan_def
    by (rule scan_title_files [of 1024 ?init ?more]) (simp_all add: MAX_TITLES_def)
  also have "\<dots> = Inr crowded_scan"
    by (rule scan_entries_at_capacity) (simp add: c MAX_TITLES_def)
  finally have r: "rescan ''/t'' crowded_tree empty_cache = Inr crowded_scan" .
  have m: "matching_files crowded_tree = 1025"
    by (simp add: crowded_tree_def matching_entries_append is_title_name_def ends_with_ci_def
        tolower_def suffix_iff_drop)
  have f: "fs_calls crowded_scan
      = Opendir ''/t'' # map (\<lambda>d. Stat (''/t'' @ ''/'' @ d)) (map numbered [0..<1024])"
    by (simp add: crowded_scan_def fs_calls_record_titles)
  have n1: "Stat ''/t/more'' \<notin> set (fs_calls crowded_scan)"
  proof
    assume "Stat ''/t/more'' \<in> set (fs_calls crowded_scan)"
    then obtain k where "numbered k = ''more''" by (auto simp add: f)
    then have "has_valid_extension ''more''" by (metis has_valid_extension_numbered)
    then show False by (simp add: has_valid_extension_def strcasecmp_def tolower_def)
  qed
  have n2: "Opendir ''/t/more'' \<notin> set (fs_calls crowded_scan)"
    by (auto simp add: f)
  have n3: "Stat ''/t/more/z.nsp'' \<notin> set (fs_calls crowded_scan)"
  proof
    assume "Stat ''/t/more/z.nsp'' \<in> set (fs_calls crowded_scan)"
    then obtain k where "numbered k = ''more/z.nsp''" by (auto simp add: f)
    moreover have "CHR ''m'' \<notin> set (numbered k)" by (auto simp add: numbered_def)
    ultimately show False by simp
  qed
  from r m c n1 n2 n3 show ?thesis by blast
qed

text \<open>
  Claim C2, amended. For a tree all of whose joined paths fit the path buffer, the rescan
  returns and the catalog's count is the number of regular files under the root whose name
  ends case-insensitively in \<open>.nsp\<close>, \<open>.xci\<close> or \<open>.nsz\<close>, capped at 1024. Once the count
  has reached 1024 the loop over a directory's entries ends without looking at any further
  entry and without error: the state is returned as it is.
\<close>

theorem rescan_counts_titles_up_to_capacity:
  assumes "paths_fit work_dir root"
  shows "(\<exists>s. rescan work_dir root c = Inr s \<and>
            count (titles s) = min 1024 (matching_files root)) \<and>
         (\<forall>path es s. 1024 \<le> count (titles s) \<longrightarrow> scan_entries path es s = Inr s)"
proof -
  have "\<exists>s. rescan work_dir root c = Inr s \<and>
      count (titles s) = min MAX_TITLES (matching_files root)"
    using scan_count(1) [OF assms, of "\<lparr>titles = c\<lparr>count := 0\<rparr>, fs_calls = []\<rparr>"]
    by (simp add: rescan_def)
  moreover have "\<forall>path es s. MAX_TITLES \<le> count (titles s) \<longrightarrow> scan_entries path es s = Inr s"
    by (simp add: scan_entries_at_capacity)
  ultimately show ?thesis by (simp add: MAX_TITLES_def)
qed

theorem rescan_counts_titles_up_to_capacity_witness:
  "paths_fit ''/t'' small_tree \<and> matching_files small_tree = 2 \<and>
   (\<exists>s. rescan ''/t'' small_tree two_titles = Inr s \<and> count (titles s) = 2) \<and>
   scan_entries ''/t'' [(''c.nsz'', Regular)] \<lparr>titles = empty_cache\<lparr>count := 1024\<rparr>, fs_calls = []\<rparr>
     = Inr \<lparr>titles = empty_cache\<lparr>count := 1024\<rparr>, fs_calls = []\<rparr>"
proof -
  have f: "paths_fit ''/t'' small_tree"
    by (simp add: small_tree_def MAX_PATH_LEN_def)
  have m: "matching_files small_tree = 2"
    by code_simp
  show ?thesis
    using rescan_counts_titles_up_to_capacity [OF f, of two_titles] f m
    by (simp add: MAX_TITLES_def)
qed

lemma strcat_titles_eq:
  "i \<le> count c \<Longrightarrow>
   strcat_titles c i acc =
     (let rest = concat (map (\<lambda>j. display_name (entries c ! j) @ [CHR 0x0A]) [i..<count c])
      in if i < count c \<and> MAX_TITLES * 256 \<le> length (acc @ rest) then Inl Heap_Overflow
         else Inr (acc @ rest))"
proof (induction c i acc rule: strcat_titles.induct)
  case (1 cache i nsp_list)
  show ?case
  proof (cases "i < count cache")
    case False
    then show ?thesis using "1.prems" by (subst strcat_titles.simps) simp
  next
    case True
    let ?l1 = "nsp_list @ display_name (entries cache ! i)"
    let ?l2 = "?l1 @ [CHR 0x0A]"
    have upt: "[i..<count cache] = i # [i + 1..<count cache]"
      using True by (simp add: upt_conv_Cons)
    show ?thesis
    proof (cases "MAX_TITLES * 256 < length ?l2 + 1")
      case over: True
      then have "strcat_titles cache i nsp_list = Inl Heap_Overflow"
        using True by (subst strcat_titles.simps) (simp add: Let_def)
      moreover have "MAX_TITLES * 256 \<le> length (nsp_list @
          concat (map (\<lambda>j. display_name (entries cache ! j) @ [CHR 0x0A]) [i..<count cache]))"
        using over by (simp add: upt)
      ultimately show ?thesis using True by (simp add: Let_def)
    next
      case fits: False
      then have f1: "\<not> MAX_TITLES * 256 < length ?l1 + 1" by simp
      have "strcat_titles cache i nsp_list = strcat_titles cache (i + 1) ?l2"
        using True fits f1 by (subst strcat_titles.simps) (simp add: Let_def)
      also have "\<dots> =
          (let rest = concat (map (\<lambda>j. display_name (entries cache ! j) @ [CHR 0x0A])
                               [i + 1..<count cache])
           in if i + 1 < count cache \<and> MAX_TITLES * 256 \<le> length (?l2 @ rest)
              then Inl Heap_Overflow else Inr (?l2 @ rest))"
        using True f1 fits by (intro "1.IH") (simp_all add: Let_def)
      finally show ?thesis
        using True fits by (auto simp add: Let_def upt)
    qed
  qed
qed

lemma strcat_titles_list_text:
  "strcat_titles c 0 [] =
     (if 0 < count c \<and> MAX_TITLES * 256 \<le> length (list_text c) then Inl Heap_Overflow
      else Inr (list_text c))"
  using strcat_titles_eq [of 0 c "[]"]
  by (simp add: list_text_def catalog_def Let_def comp_def map_concat)

subsection \<open>The List handler\<close>

lemma sint_of_nat_u32: "n < 2 ^ 31 \<Longrightarrow> sint (of_nat n :: u32) = int n"
proof -
  assume n: "n < 2 ^ 31"
  have "sint (of_nat n :: u32) = signed_take_bit 31 (int n)"
    by (simp add: signed_of_nat)
  also have "\<dots> = int n"
    using n by (intro signed_take_bit_int_eq_self) simp_all
  finally show ?thesis .
qed

lemma unat_of_nat_u32: "n < 2 ^ 32 \<Longrightarrow> unat (of_nat n :: u32) = n"
  by (simp add: unat_of_nat)

text \<open>
  When the list, with its terminating NUL, fits the buffer of \<open>MAX_TITLES * 256\<close> bytes,
  the handler writes a List/Response header declaring the list's length, reads one
  acknowledgement, and writes the list: the declared length is the payload's length.
\<close>

lemma process_list_command_result:
  assumes "rescan work_dir (titles_root w) cache = Inr s"
    and "\<not> malloc_null w (MAX_TITLES * 256)"
    and "length (list_text (titles s)) < MAX_TITLES * 256"
  shows "process_list_command work_dir cache w =
           Inr (titles s,
                w\<lparr>usb_out := usb_out w @
                     [encode_header CMD_TYPE_RESPONSE CMD_LIST
                        (of_nat (length (list_text (titles s)))),
                      map of_char (list_text (titles s))],
                  usb_reads := usb_reads w + 1\<rparr>)"
    and "unat (of_nat (length (list_text (titles s))) :: u32) = length (list_text (titles s))"
proof -
  let ?text = "list_text (titles s)"
  have small: "length ?text < 2 ^ 31" "length ?text < 2 ^ 32"
    using assms(3) by (simp_all add: MAX_TITLES_def)
  have cat: "strcat_titles (titles s) 0 [] = Inr ?text"
    using assms(3) by (simp add: strcat_titles_list_text)
  show "process_list_command work_dir cache w =
           Inr (titles s,
                w\<lparr>usb_out := usb_out w @
                     [encode_header CMD_TYPE_RESPONSE CMD_LIST (of_nat (length ?text)),
                      map of_char ?text],
                  usb_reads := usb_reads w + 1\<rparr>)"
    using assms(1,2) cat
    by (simp add: process_list_command_def Let_def usb_read_def usb_write_def
        sint_of_nat_u32 [OF small(1)])
  show "unat (of_nat (length ?text) :: u32) = length ?text"
    using small(2) by (rule unat_of_nat_u32)
qed

lemma process_list_command_overflow:
  assumes "rescan work_dir (titles_root w) cache = Inr s"
    and "\<not> malloc_null w (MAX_TITLES * 256)"
    and "0 < count (titles s)"
    and "MAX_TITLES * 256 \<le> length (list_text (titles s))"
  shows "process_list_command work_dir cache w = Inl Heap_Overflow"
  using assms by (simp add: process_list_command_def Let_def strcat_titles_list_text)

lemma length_concat_const:
  "(\<forall>x \<in> set xs. length (f x) = n) \<Longrightarrow> length (concat (map f xs)) = n * length xs"
  by (induction xs) simp_all

lemma rescan_full_tree:
  "rescan ''/t'' full_tree c =
     Inr (foldl (record_title ''/t'') \<lparr>titles = c\<lparr>count := 0\<rparr>, fs_calls = [Opendir ''/t'']\<rparr>
            (map numbered [0..<1024]))"
proof -
  let ?init = "\<lparr>titles = c\<lparr>count := 0\<rparr>, fs_calls = [Opendir ''/t'']\<rparr>"
  have "rescan ''/t'' full_tree c = scan_entries ''/t'' (title_files 1024 @ []) ?init"
    by (simp add: rescan_def full_tree_def)
  also have "\<dots> = scan_entries ''/t'' [] (foldl (record_title ''/t'') ?init (map numbered [0..<1024]))"
    by (rule scan_title_files [of 1024 ?init "[]"]) (simp_all add: MAX_TITLES_def)
  finally show ?thesis by simp
qed

lemma list_text_full_tree:
  assumes "length (entries c) = MAX_TITLES"
  shows "length (list_text (titles (foldl (record_title ''/t'')
           \<lparr>titles = c\<lparr>count := 0\<rparr>, fs_calls = [Opendir ''/t'']\<rparr> (map numbered [0..<1024]))))
         = 262144"
proof -
  let ?init = "\<lparr>titles = c\<lparr>count := 0\<rparr>, fs_calls = [Opendir ''/t'']\<rparr>"
  let ?entry = "\<lambda>d. \<lparr>display_name = take 255 d,
                        full_path = take (MAX_PATH_LEN - 1) (''/t'' @ ''/'' @ d)\<rparr>"
  have "catalog (titles (foldl (record_title ''/t'') ?init (map numbered [0..<1024])))
      = catalog (titles ?init) @ map ?entry (map numbered [0..<1024])"
    using assms by (intro catalog_record_titles) (simp add: MAX_TITLES_def)
  then have cat: "catalog (titles (foldl (record_title ''/t'') ?init (map numbered [0..<1024])))
      = map ?entry (map numbered [0..<1024])"
    by (simp add: catalog_def)
  have "length (concat (map (\<lambda>e. display_name e @ [CHR 0x0A])
            (map ?entry (map numbered [0..<1024]))))
      = 256 * length (map ?entry (map numbered [0..<1024]))"
    by (rule length_concat_const) (auto simp add: length_numbered)
  then show ?thesis
    by (simp add: list_text_def cat)
qed

text \<open>
  Claim C4 fails at the capacity bound. With 1024 titles of 255 characters each, the list
  is \<open>1024 * 256\<close> characters long and its terminating NUL is written one byte past the
  buffer \<^verbatim>\<open>malloc(MAX_TITLES * 256)\<close> returned: the handler's behaviour is undefined before
  any header is sent.
\<close>

theorem list_overflows_at_capacity:
  "process_list_command ''/t'' empty_cache (host []\<lparr>titles_root := full_tree\<rparr>)
     = Inl Heap_Overflow"
proof -
  let ?w = "host []\<lparr>titles_root := full_tree\<rparr>"
  let ?s = "foldl (record_title ''/t'')
      \<lparr>titles = empty_cache\<lparr>count := 0\<rparr>, fs_calls = [Opendir ''/t'']\<rparr> (map numbered [0..<1024])"
  have r: "rescan ''/t'' (titles_root ?w) empty_cache = Inr ?s"
    by (simp add: rescan_full_tree)
  have m: "\<not> malloc_null ?w (MAX_TITLES * 256)"
    by (simp add: host_def)
  have c: "0 < count (titles ?s)"
    by (simp add: count_record_titles)
  have e: "length (entries empty_cache) = MAX_TITLES"
    by (simp add: empty_cache_def)
  have l: "MAX_TITLES * 256 \<le> length (list_text (titles ?s))"
    using list_text_full_tree [OF e] by (simp add: MAX_TITLES_def)
  show ?thesis
    using r m c l by (rule process_list_command_overflow)
qed

subsection \<open>The session loop, whole runs\<close>




















end
